theory Spec2Isabelle
  imports Main "HOL-Library.AList" "HOL-Library.Sublist"
begin

section \<open>The import command of plastron: a shallow embedding\<close>

text \<open>
  The theory follows \<^verbatim>\<open>src/plastron/commands/import.py\<close>. Python strings are
  \<^typ>\<open>string\<close> (the model covers ASCII text), dicts are maps, exceptions are the
  left summand of a result \<open>error + 'a\<close>, mutation is explicit state passing. The model
  class, the property classes of \<^verbatim>\<open>plastron.rdf\<close>, the repository client and rdflib
  are not part of the sources; what the code uses of them is a parameter of the model
  (a field of a record) and is named as such where it is declared.
\<close>

subsection \<open>Exceptions\<close>

datatype error =
    ValueError
  | TypeError
  | KeyError
  | IndexError
  | AttributeError
  | LookupError
  | Collaborator string

subsection \<open>Python string operations\<close>

text \<open>\<^verbatim>\<open>s.split(sep)\<close> for a separator of one character: the empty string gives one
  empty part.\<close>

fun py_split :: "char \<Rightarrow> string \<Rightarrow> string list" where
  "py_split sep [] = [[]]"
| "py_split sep (c # cs) =
     (if c = sep then [] # py_split sep cs
      else (case py_split sep cs of
              p # ps \<Rightarrow> (c # p) # ps
            | [] \<Rightarrow> [[c]]))"

text \<open>\<^verbatim>\<open>s.split(sep, maxsplit)\<close>: at most \<open>maxsplit\<close> cuts, the rest of the string is the
  last part.\<close>

fun py_split_max :: "char \<Rightarrow> nat \<Rightarrow> string \<Rightarrow> string list" where
  "py_split_max sep n [] = [[]]"
| "py_split_max sep 0 (c # cs) = [c # cs]"
| "py_split_max sep (Suc n) (c # cs) =
     (if c = sep then [] # py_split_max sep n cs
      else (case py_split_max sep (Suc n) cs of
              p # ps \<Rightarrow> (c # p) # ps
            | [] \<Rightarrow> [[c]]))"

text \<open>The characters \<^verbatim>\<open>str.strip()\<close> removes (ASCII): tab, line feed, vertical tab, form
  feed, carriage return, the four separators 28 to 31, and the space.\<close>

definition is_space :: "char \<Rightarrow> bool" where
  "is_space c = (let n = (of_char c :: nat) in (9 \<le> n \<and> n \<le> 13) \<or> (28 \<le> n \<and> n \<le> 32))"

definition py_strip :: "string \<Rightarrow> string" where
  "py_strip s = rev (dropWhile is_space (rev (dropWhile is_space s)))"

text \<open>The classes \<^verbatim>\<open>\d\<close> and \<^verbatim>\<open>\w\<close> of the pattern (ASCII).\<close>

definition is_digit :: "char \<Rightarrow> bool" where
  "is_digit c = (let n = (of_char c :: nat) in 48 \<le> n \<and> n \<le> 57)"

definition is_word :: "char \<Rightarrow> bool" where
  "is_word c = (let n = (of_char c :: nat) in
     (48 \<le> n \<and> n \<le> 57) \<or> (65 \<le> n \<and> n \<le> 90) \<or> (97 \<le> n \<and> n \<le> 122) \<or> n = 95)"

text \<open>A match of \<^verbatim>\<open>([\w]+)\[(\d+)\]\<close> that starts at the head of the string. Neither class
  contains a bracket, so a greedy run that is followed by the bracket is the only way to
  match: no shorter run can be followed by one.\<close>

definition match_here :: "string \<Rightarrow> (string \<times> string) option" where
  "match_here s =
     (let w = takeWhile is_word s; r = dropWhile is_word s in
      if w = [] then None
      else (case r of
              [] \<Rightarrow> None
            | b # r' \<Rightarrow>
                if b \<noteq> CHR ''['' then None
                else (let d = takeWhile is_digit r'; r'' = dropWhile is_digit r' in
                      if d = [] then None
                      else (case r'' of
                              [] \<Rightarrow> None
                            | e # _ \<Rightarrow> if e = CHR '']'' then Some (w, d) else None))))"

text \<open>\<^verbatim>\<open>re.search(pattern, key)\<close>: the leftmost match, as its two groups; \<open>None\<close> when
  there is none.\<close>

fun re_search :: "string \<Rightarrow> (string \<times> string) option" where
  "re_search [] = None"
| "re_search (c # cs) =
     (case match_here (c # cs) of
        Some g \<Rightarrow> Some g
      | None \<Rightarrow> re_search cs)"

text \<open>\<^verbatim>\<open>int(m[2])\<close> on a run of decimal digits.\<close>

definition int_of_digits :: "string \<Rightarrow> nat" where
  "int_of_digits ds = foldl (\<lambda>n c. 10 * n + (of_char c - 48)) 0 ds"

subsection \<open>The data model\<close>

text \<open>An RDF term as rdflib has it, and what \<^verbatim>\<open>str\<close> gives on the values a property
  holds: a term read from the graph, or a plain string once the import has assigned the
  row's values.\<close>

datatype rdf_term = RDFLiteral string | URIRef string

datatype pyval = PStr string | PTerm rdf_term

fun str_of :: "pyval \<Rightarrow> string" where
  "str_of (PStr s) = s"
| "str_of (PTerm (RDFLiteral s)) = s"
| "str_of (PTerm (URIRef s)) = s"

text \<open>A property object. Its class is not in the sources: \<open>prop_values\<close> is
  \<^verbatim>\<open>prop.values\<close>, \<open>prop_uri\<close> is \<^verbatim>\<open>prop.uri\<close>, \<open>get_term\<close> is \<^verbatim>\<open>prop.get_term\<close>, and
  \<open>getitem\<close> is \<^verbatim>\<open>prop[URIRef(u)]\<close>, the embedded object filed under a URI, as the address
  of the object.\<close>

record property =
  prop_values :: "pyval list"
  prop_uri :: string
  get_term :: "string \<Rightarrow> rdf_term"
  getitem :: "string \<rightharpoonup> nat"

text \<open>An embedded object: its URI and, for each attribute name, the values of the property
  \<^verbatim>\<open>getattr(obj, name)\<close>.\<close>

record embedded =
  obj_uri :: string
  obj_props :: "string \<rightharpoonup> pyval list"

text \<open>The item read from the repository. \<open>attrs\<close> is \<^verbatim>\<open>attrgetter(path)(item)\<close>, keyed by
  the dotted path (how a path is resolved belongs to the model class); \<open>heap\<close> holds the
  embedded objects by address, so that two index positions can name one object.\<close>

record resource =
  item_uri :: string
  attrs :: "string \<rightharpoonup> property"
  heap :: "nat \<Rightarrow> embedded"

text \<open>A row as \<^verbatim>\<open>csv.DictReader\<close> yields it: a dict from the column names of the file to
  the cells of the row, each a string.\<close>

type_synonym row = "string \<rightharpoonup> string"

text \<open>The lookup index: for an attribute name, the embedded object (its address) at each
  position.\<close>

type_synonym index = "string \<rightharpoonup> (nat \<rightharpoonup> nat)"

subsection \<open>\<^verbatim>\<open>build_lookup_index\<close>\<close>

text \<open>Modelled from the spec: \<^verbatim>\<open>prop[URIRef(u)]\<close>, the lookup of an embedded object on a
  property by its URI, whose class is not in the sources. The spec has it fail with
  \<^verbatim>\<open>LookupError\<close> if the term is absent from the property's value set.\<close>

definition prop_getitem :: "property \<Rightarrow> string \<Rightarrow> error + nat" where
  "prop_getitem prop u = (case getitem prop u of None \<Rightarrow> Inl LookupError | Some obj \<Rightarrow> Inr obj)"

text \<open>One round of the loop over the entries. \<^verbatim>\<open>key, uriref = entry.split('=')\<close> raises
  \<^verbatim>\<open>ValueError\<close> unless the entry has exactly two parts; \<^verbatim>\<open>m[1]\<close> raises \<^verbatim>\<open>TypeError\<close> when
  the search found nothing; \<^verbatim>\<open>getattr(item, attr)\<close> raises \<^verbatim>\<open>AttributeError\<close>.
  \<^verbatim>\<open>index\<close> is a \<^verbatim>\<open>defaultdict(dict)\<close>: a missing attribute starts with the empty dict.\<close>

definition index_entry :: "resource \<Rightarrow> string \<Rightarrow> index \<Rightarrow> error + index" where
  "index_entry item entry index =
     (case py_split CHR ''='' entry of
        [key, uriref] \<Rightarrow>
          (case re_search key of
             None \<Rightarrow> Inl TypeError
           | Some (attr, digits) \<Rightarrow>
               (let i = int_of_digits digits in
                (case attrs item attr of
                   None \<Rightarrow> Inl AttributeError
                 | Some prop \<Rightarrow>
                     (case prop_getitem prop (item_uri item @ uriref) of
                        Inl e \<Rightarrow> Inl e
                      | Inr obj \<Rightarrow>
                          Inr (index(attr \<mapsto>
                                 (case index attr of None \<Rightarrow> Map.empty | Some d \<Rightarrow> d)(i \<mapsto> obj)))))))
      | _ \<Rightarrow> Inl ValueError)"

text \<open>A \<^verbatim>\<open>for\<close> loop whose body may raise: the first error ends it.\<close>

fun for_loop :: "('a \<Rightarrow> 's \<Rightarrow> error + 's) \<Rightarrow> 'a list \<Rightarrow> 's \<Rightarrow> error + 's" where
  "for_loop body [] s = Inr s"
| "for_loop body (x # xs) s =
     (case body x s of
        Inl e \<Rightarrow> Inl e
      | Inr s' \<Rightarrow> for_loop body xs s')"

definition build_lookup_index :: "resource \<Rightarrow> string \<Rightarrow> error + index" where
  "build_lookup_index item index_string =
     for_loop (index_entry item) (py_split CHR '';'' index_string) Map.empty"

subsection \<open>Graphs\<close>

text \<open>An rdflib \<^verbatim>\<open>Graph\<close> is a set of triples. It is kept as the list of its triples, each
  once; the order of the list is the order in which a loop over the graph visits them, and
  no theorem below depends on it. Subject and predicate are URIs, the object is a term.\<close>

type_synonym triple = "string \<times> string \<times> rdf_term"

type_synonym graph = "triple list"

definition graph_add :: "triple \<Rightarrow> graph \<Rightarrow> graph" where
  "graph_add t g = (if t \<in> set g then g else g @ [t])"

definition graph_remove :: "triple \<Rightarrow> graph \<Rightarrow> graph" where
  "graph_remove t g = removeAll t g"

text \<open>\<^verbatim>\<open>set(xs) - set(ys)\<close>, as the list of its members in the order a loop visits them.\<close>

definition py_set_diff :: "string list \<Rightarrow> string list \<Rightarrow> string list" where
  "py_set_diff xs ys = filter (\<lambda>x. x \<notin> set ys) (remdups xs)"

subsection \<open>The diff of one property\<close>

text \<open>What the loop over the properties of a row reads and writes: the item (with the heap
  of its embedded objects) and the two graphs.\<close>

record diff_state =
  item :: resource
  delete_graph :: graph
  insert_graph :: graph

text \<open>\<^verbatim>\<open>[v for v in cell.split('|') if len(v.strip()) > 0]\<close>: the values are kept as they
  are written, only the test strips them.\<close>

definition new_values_of :: "string \<Rightarrow> string list" where
  "new_values_of cell = filter (\<lambda>v. length (py_strip v) > 0) (py_split CHR ''|'' cell)"

text \<open>Direct mode (lines 89 to 101): one \<^verbatim>\<open>add\<close> for each member of the two set differences,
  then \<^verbatim>\<open>prop.values = new_values\<close>.\<close>

definition diff_direct ::
  "string \<Rightarrow> string \<Rightarrow> property \<Rightarrow> string list \<Rightarrow> string list \<Rightarrow> diff_state \<Rightarrow> diff_state" where
  "diff_direct subject path prop old_values new_values st =
     st\<lparr>delete_graph :=
          fold (\<lambda>deleted_value. graph_add (subject, prop_uri prop, get_term prop deleted_value))
            (py_set_diff old_values new_values) (delete_graph st),
        insert_graph :=
          fold (\<lambda>inserted_value. graph_add (subject, prop_uri prop, get_term prop inserted_value))
            (py_set_diff new_values old_values) (insert_graph st),
        item := (item st)\<lparr>attrs :=
          (attrs (item st))(path \<mapsto> prop\<lparr>prop_values := map PStr new_values\<rparr>)\<rparr>\<rparr>"

text \<open>Modelled from the spec: \<^verbatim>\<open>setattr(obj, next_attr, new_value)\<close> on an embedded object,
  whose class is not in the sources. The spec has it overwrite the embedded object's
  in-memory inner value: the attribute then holds the one new value.\<close>

definition setattr :: "embedded \<Rightarrow> string \<Rightarrow> string \<Rightarrow> embedded" where
  "setattr obj name v = obj\<lparr>obj_props := (obj_props obj)(name \<mapsto> [PStr v])\<rparr>"

text \<open>Embedded mode, the body of the loop over \<^verbatim>\<open>enumerate(new_values)\<close> (lines 112 to 119).
  \<^verbatim>\<open>index[first_attr]\<close> is a dict keyed by position: a missing position raises
  \<^verbatim>\<open>KeyError\<close>. \<^verbatim>\<open>getattr(obj, next_attr)\<close> raises \<^verbatim>\<open>AttributeError\<close>, and \<^verbatim>\<open>.values[0]\<close>
  raises \<^verbatim>\<open>IndexError\<close> on an empty list.\<close>

definition embedded_visit ::
  "(nat \<rightharpoonup> nat) \<Rightarrow> string \<Rightarrow> property \<Rightarrow> nat \<times> string \<Rightarrow> diff_state \<Rightarrow> error + diff_state" where
  "embedded_visit positions next_attr prop iv st =
     (case iv of (i, new_value) \<Rightarrow>
      (case positions i of
         None \<Rightarrow> Inl KeyError
       | Some a \<Rightarrow>
           (let obj = heap (item st) a in
            (case obj_props obj next_attr of
               None \<Rightarrow> Inl AttributeError
             | Some [] \<Rightarrow> Inl IndexError
             | Some (v # _) \<Rightarrow>
                 (let old_value = str_of v in
                  if new_value \<noteq> old_value then
                    Inr (st\<lparr>item := (item st)\<lparr>heap :=
                               (heap (item st))(a := setattr obj next_attr new_value)\<rparr>,
                            delete_graph :=
                              graph_add (obj_uri obj, prop_uri prop, get_term prop old_value)
                                (delete_graph st),
                            insert_graph :=
                              graph_add (obj_uri obj, prop_uri prop, get_term prop new_value)
                                (insert_graph st)\<rparr>)
                  else Inr st)))))"

text \<open>The body of the loop over the properties (lines 83 to 119). \<^verbatim>\<open>attrs.split('.', 2)\<close>
  gives three parts for a path with two dots or more, and the assignment to two names then
  raises \<^verbatim>\<open>ValueError\<close>. \<^verbatim>\<open>row[header]\<close> raises \<^verbatim>\<open>KeyError\<close> for a missing column.\<close>

definition diff_property ::
  "string \<Rightarrow> row \<Rightarrow> index \<Rightarrow> string \<times> string \<Rightarrow> diff_state \<Rightarrow> error + diff_state" where
  "diff_property uri row index ha st =
     (case ha of (header, path) \<Rightarrow>
      (case attrs (item st) path of
         None \<Rightarrow> Inl AttributeError
       | Some prop \<Rightarrow>
           (let old_values = map str_of (prop_values prop) in
            (case row header of
               None \<Rightarrow> Inl KeyError
             | Some cell \<Rightarrow>
                 (let new_values = new_values_of cell in
                  if CHR ''.'' \<notin> set path then
                    Inr (diff_direct uri path prop old_values new_values st)
                  else
                    (case py_split_max CHR ''.'' 2 path of
                       [first_attr, next_attr] \<Rightarrow>
                         (case index first_attr of
                            None \<Rightarrow> Inr st
                          | Some positions \<Rightarrow>
                              for_loop (embedded_visit positions next_attr prop)
                                (List.enumerate 0 new_values) st)
                     | _ \<Rightarrow> Inl ValueError))))))"

subsection \<open>Cancellation and the update text\<close>

text \<open>Lines 122 to 125. The loop visits each statement the delete graph held when the loop
  began, once, and tests and removes on the graphs as they are by then. How rdflib iterates a
  graph that the loop body changes belongs to rdflib: the model takes its store to hand out
  the triples of a copy.\<close>

fun cancel_loop :: "triple list \<Rightarrow> graph \<times> graph \<Rightarrow> graph \<times> graph" where
  "cancel_loop [] dg = dg"
| "cancel_loop (statement # rest) (d, i) =
     (if statement \<in> set i
      then cancel_loop rest (graph_remove statement d, graph_remove statement i)
      else cancel_loop rest (d, i))"

definition cancel :: "graph \<Rightarrow> graph \<Rightarrow> graph \<times> graph" where
  "cancel d i = cancel_loop d (d, i)"

text \<open>\<^verbatim>\<open>build_sparql_update\<close>; the N-Triples serializer of rdflib is a parameter.\<close>

definition build_sparql_update :: "(graph \<Rightarrow> string) \<Rightarrow> graph \<Rightarrow> graph \<Rightarrow> string" where
  "build_sparql_update serialize_nt d i =
     (let deletes = py_strip (serialize_nt d); inserts = py_strip (serialize_nt i) in
      ''DELETE { '' @ deletes @ '' } INSERT { '' @ inserts @ '' } WHERE {}'')"

subsection \<open>The rows\<close>

text \<open>Lines 80 to 125 for one row: both graphs start empty, every property of
  \<^verbatim>\<open>property_attrs\<close> is diffed in turn, then the cancellation pass runs.\<close>

definition diff_row ::
  "(string \<times> string) list \<Rightarrow> string \<Rightarrow> row \<Rightarrow> index \<Rightarrow> resource \<Rightarrow> error + diff_state" where
  "diff_row pa uri row index item0 =
     (case for_loop (diff_property uri row index) pa
             \<lparr>item = item0, delete_graph = [], insert_graph = []\<rparr> of
        Inl e \<Rightarrow> Inl e
      | Inr st \<Rightarrow>
          (case cancel (delete_graph st) (insert_graph st) of
             (d, i) \<Rightarrow> Inr (st\<lparr>delete_graph := d, insert_graph := i\<rparr>)))"

text \<open>What the command is given from outside the sources: the \<^verbatim>\<open>HEADER_MAP\<close> of the model
  class (a dict, as the list of its items, attribute path first), reading an item
  (\<^verbatim>\<open>model_class.from_graph(repo.get_graph(uri, False), uri)\<close>), \<^verbatim>\<open>item.patch\<close>, and the
  N-Triples serializer. The repository is any state \<open>'r\<close> that reading consults and a
  patch changes; both calls may raise.\<close>

record 'r collaborators =
  HEADER_MAP :: "(string \<times> string) list"
  from_graph :: "'r \<Rightarrow> string \<Rightarrow> error + resource"
  patch :: "'r \<Rightarrow> resource \<Rightarrow> string \<Rightarrow> error + 'r"
  serialize_nt :: "graph \<Rightarrow> string"

text \<open>\<^verbatim>\<open>{header: attrs for attrs, header in model_class.HEADER_MAP.items()}\<close>: a later item
  with the same header replaces the value and keeps the place.\<close>

definition property_attrs :: "(string \<times> string) list \<Rightarrow> (string \<times> string) list" where
  "property_attrs hm = fold (\<lambda>(path, header). AList.update header path) hm []"

text \<open>The calls made on the repository, in order: the model's record of what was fetched
  and what was submitted.\<close>

datatype event = GetGraph string | Patch string string

record counters =
  row_count :: nat
  updated_count :: nat
  unchanged_count :: nat

text \<open>The body of the loop over the rows (lines 72 to 137), on the counters and the
  repository. An exception leaves the loop and the command: the counters are lost with
  it, the calls made so far are not.\<close>

definition row_body ::
  "'r collaborators \<Rightarrow> row \<Rightarrow> counters \<times> 'r \<Rightarrow> event list \<times> (error + counters \<times> 'r)" where
  "row_body c row st =
     (case st of (cnt, repo) \<Rightarrow>
      (case row ''URI'' of
         None \<Rightarrow> ([], Inl KeyError)
       | Some uri \<Rightarrow>
           (case from_graph c repo uri of
              Inl e \<Rightarrow> ([GetGraph uri], Inl e)
            | Inr item0 \<Rightarrow>
                (case row ''INDEX'' of
                   None \<Rightarrow> ([GetGraph uri], Inl KeyError)
                 | Some index_string \<Rightarrow>
                     (case build_lookup_index item0 index_string of
                        Inl e \<Rightarrow> ([GetGraph uri], Inl e)
                      | Inr index \<Rightarrow>
                          (case diff_row (property_attrs (HEADER_MAP c)) uri row index item0 of
                             Inl e \<Rightarrow> ([GetGraph uri], Inl e)
                           | Inr ds \<Rightarrow>
                               (let cnt1 = cnt\<lparr>row_count := row_count cnt + 1\<rparr> in
                                if length (delete_graph ds) > 0 \<or> length (insert_graph ds) > 0 then
                                  (let sparql_update =
                                         build_sparql_update (serialize_nt c)
                                           (delete_graph ds) (insert_graph ds) in
                                   (case patch c repo (item ds) sparql_update of
                                      Inl e \<Rightarrow> ([GetGraph uri, Patch uri sparql_update], Inl e)
                                    | Inr repo' \<Rightarrow>
                                        ([GetGraph uri, Patch uri sparql_update],
                                         Inr (cnt1\<lparr>updated_count := updated_count cnt1 + 1\<rparr>,
                                              repo'))))
                                else
                                  ([GetGraph uri],
                                   Inr (cnt1\<lparr>unchanged_count := unchanged_count cnt1 + 1\<rparr>,
                                        repo)))))))))"

text \<open>The loop over \<^verbatim>\<open>enumerate(csv_file, 1)\<close> with its \<^verbatim>\<open>break\<close> (lines 68 to 71);
  \<^verbatim>\<open>args.limit\<close> is an optional Python int.\<close>

fun row_loop ::
  "'r collaborators \<Rightarrow> int option \<Rightarrow> nat \<Rightarrow> row list \<Rightarrow> counters \<times> 'r \<Rightarrow>
     event list \<times> (error + counters \<times> 'r)" where
  "row_loop c limit row_number [] st = ([], Inr st)"
| "row_loop c limit row_number (row # rows) st =
     (if (case limit of None \<Rightarrow> False | Some l \<Rightarrow> int row_number > l) then ([], Inr st)
      else
        (case row_body c row st of
           (ev, Inl e) \<Rightarrow> (ev, Inl e)
         | (ev, Inr st') \<Rightarrow>
             (case row_loop c limit (Suc row_number) rows st' of
                (ev', r) \<Rightarrow> (ev @ ev', r))))"

text \<open>\<^verbatim>\<open>Command.__call__\<close> on the rows of the file: the counters start at zero, the first
  row has number 1.\<close>

definition Command_call ::
  "'r collaborators \<Rightarrow> 'r \<Rightarrow> int option \<Rightarrow> row list \<Rightarrow> event list \<times> (error + counters \<times> 'r)" where
  "Command_call c repo limit rows =
     row_loop c limit 1 rows
       (\<lparr>row_count = 0, updated_count = 0, unchanged_count = 0\<rparr>, repo)"

subsection \<open>Notions the statements use\<close>

text \<open>The URIs fetched, read off the calls.\<close>

fun fetched :: "event list \<Rightarrow> string list" where
  "fetched [] = []"
| "fetched (GetGraph u # ev) = u # fetched ev"
| "fetched (Patch u q # ev) = fetched ev"

fun patches :: "event list \<Rightarrow> (string \<times> string) list" where
  "patches [] = []"
| "patches (GetGraph u # ev) = patches ev"
| "patches (Patch u q # ev) = (u, q) # patches ev"

text \<open>The \<^verbatim>\<open>URI\<close> cell of a row, when it has one.\<close>

definition row_uri :: "row \<Rightarrow> string list" where
  "row_uri row = (case row ''URI'' of None \<Rightarrow> [] | Some u \<Rightarrow> [u])"

text \<open>A cell matches the current values: in direct mode the strings of the property's values
  and the values of the cell are the same set; in embedded mode each value of the cell is the
  current first inner value of the embedded object at its position (nothing is asked when
  the outer attribute is not a key of the index).\<close>

definition position_matches :: "(nat \<rightharpoonup> nat) \<Rightarrow> string \<Rightarrow> resource \<Rightarrow> nat \<times> string \<Rightarrow> bool" where
  "position_matches positions next_attr it iv =
     (case iv of (i, new_value) \<Rightarrow>
      (case positions i of
         None \<Rightarrow> False
       | Some a \<Rightarrow>
           (case obj_props (heap it a) next_attr of
              None \<Rightarrow> False
            | Some [] \<Rightarrow> False
            | Some (v # _) \<Rightarrow> str_of v = new_value)))"

definition cell_matches :: "row \<Rightarrow> index \<Rightarrow> resource \<Rightarrow> string \<times> string \<Rightarrow> bool" where
  "cell_matches row index it ha =
     (case ha of (header, path) \<Rightarrow>
      (case attrs it path of
         None \<Rightarrow> False
       | Some prop \<Rightarrow>
           (case row header of
              None \<Rightarrow> False
            | Some cell \<Rightarrow>
                if CHR ''.'' \<notin> set path then
                  set (map str_of (prop_values prop)) = set (new_values_of cell)
                else
                  (case py_split_max CHR ''.'' 2 path of
                     [first_attr, next_attr] \<Rightarrow>
                       (case index first_attr of
                          None \<Rightarrow> True
                        | Some positions \<Rightarrow>
                            list_all (position_matches positions next_attr it)
                              (List.enumerate 0 (new_values_of cell)))
                   | _ \<Rightarrow> False))))"

text \<open>The index names each embedded object once: two slots (attribute, position) that hold
  the same object are the same slot.\<close>

definition slots_distinct :: "index \<Rightarrow> bool" where
  "slots_distinct index =
     (\<forall>f f' p p' i i' a. index f = Some p \<and> p i = Some a \<and> index f' = Some p' \<and> p' i' = Some a
        \<longrightarrow> f = f' \<and> i = i')"

text \<open>No embedded object is indexed under two attributes (one attribute may name it at
  several positions).\<close>

definition outers_disjoint :: "index \<Rightarrow> bool" where
  "outers_disjoint index =
     (\<forall>f f' p p' i i' a. index f = Some p \<and> p i = Some a \<and> index f' = Some p' \<and> p' i' = Some a
        \<longrightarrow> f = f')"

text \<open>An inner value that the diff of a row can write: the attribute \<open>name\<close> of the
  embedded object at address \<open>b\<close> is written only through a mapped property in embedded
  mode with that inner name, whose outer attribute is a key of the index, at a position of
  the enumerated new values of its cell that names the object.\<close>

definition written :: "(string \<times> string) list \<Rightarrow> row \<Rightarrow> index \<Rightarrow> nat \<Rightarrow> string \<Rightarrow> bool" where
  "written pa row index b name =
     list_ex (\<lambda>ha.
        (case ha of (header, path) \<Rightarrow>
           CHR ''.'' \<in> set path \<and>
           (case py_split_max CHR ''.'' 2 path of
              [first_attr, next_attr] \<Rightarrow>
                next_attr = name \<and>
                (case index first_attr of
                   None \<Rightarrow> False
                 | Some positions \<Rightarrow>
                     (case row header of
                        None \<Rightarrow> False
                      | Some cell \<Rightarrow>
                          list_ex (\<lambda>iv. positions (fst iv) = Some b)
                            (List.enumerate 0 (new_values_of cell))))
            | _ \<Rightarrow> False))) pa"

text \<open>The diff of a row, then the diff of the same row, with the same index, on the item the
  first one left in memory.\<close>

definition diff_twice ::
  "(string \<times> string) list \<Rightarrow> string \<Rightarrow> row \<Rightarrow> index \<Rightarrow> resource \<Rightarrow> error + diff_state" where
  "diff_twice pa uri row index item0 =
     (case diff_row pa uri row index item0 of
        Inl e \<Rightarrow> Inl e
      | Inr ds \<Rightarrow> diff_row pa uri row index (item ds))"

subsection \<open>Notions the proofs use\<close>

text \<open>The string of the current first inner value of the embedded object at an address, when
  it has one: what \<^verbatim>\<open>str(getattr(obj, next_attr).values[0])\<close> reads.\<close>

definition cellstr :: "resource \<Rightarrow> string \<Rightarrow> nat \<Rightarrow> string option" where
  "cellstr it inner a =
     (case obj_props (heap it a) inner of
        None \<Rightarrow> None
      | Some [] \<Rightarrow> None
      | Some (v # _) \<Rightarrow> Some (str_of v))"

text \<open>The inner values a loop over enumerated new values leaves behind: each position
  assigns its value to the object it names, a later position over an earlier one.\<close>

fun assign :: "(nat \<rightharpoonup> nat) \<Rightarrow> (nat \<times> string) list \<Rightarrow> (nat \<rightharpoonup> string) \<Rightarrow> (nat \<rightharpoonup> string)" where
  "assign positions [] c = c"
| "assign positions (iv # xs) c =
     assign positions xs (case positions (fst iv) of None \<Rightarrow> c | Some a \<Rightarrow> c(a \<mapsto> snd iv))"

text \<open>Two items look the same to the property at a path: the property object is the same,
  and, for a path \<open>outer.inner\<close>, so are the URI and the current inner value of every
  embedded object the index names under \<open>outer\<close>.\<close>

definition agree :: "index \<Rightarrow> string \<Rightarrow> resource \<Rightarrow> resource \<Rightarrow> bool" where
  "agree index path it it' =
     (attrs it' path = attrs it path \<and>
      (\<forall>outer inner positions i a.
          py_split_max CHR ''.'' 2 path = [outer, inner] \<and> index outer = Some positions \<and>
          positions i = Some a \<longrightarrow>
          obj_uri (heap it' a) = obj_uri (heap it a) \<and> cellstr it' inner a = cellstr it inner a))"

text \<open>The diff of a property is quiet on an item: from every state whose item looks the same
  to the property it returns, and what it adds to the delete graph it adds to the insert
  graph.\<close>

definition quiet :: "string \<Rightarrow> row \<Rightarrow> index \<Rightarrow> string \<times> string \<Rightarrow> resource \<Rightarrow> bool" where
  "quiet uri row index ha it =
     (\<forall>st. agree index (snd ha) it (item st) \<longrightarrow>
        (\<exists>st' E. diff_property uri row index ha st = Inr st' \<and>
           set (delete_graph st') = set (delete_graph st) \<union> E \<and>
           set (insert_graph st') = set (insert_graph st) \<union> E))"

text \<open>The bookkeeping of a loop that rewrites inner values: \<open>X\<close> and \<open>Y\<close> are the triples
  added to the two graphs, \<open>T\<close> the objects written so far; \<open>start\<close> and \<open>cur\<close> give the
  inner value of an object before the loop and now, \<open>g\<close> the triple of an object and a
  value.\<close>

definition walk_inv ::
  "(nat \<Rightarrow> string option \<Rightarrow> triple) \<Rightarrow> (nat \<rightharpoonup> string) \<Rightarrow> (nat \<rightharpoonup> string) \<Rightarrow>
     graph \<Rightarrow> graph \<Rightarrow> graph \<Rightarrow> graph \<Rightarrow> bool" where
  "walk_inv g start cur d i d' i' =
     (\<exists>X Y T. set d' = set d \<union> X \<and> set i' = set i \<union> Y \<and>
        X \<union> (\<lambda>a. g a (cur a)) ` T = Y \<union> (\<lambda>a. g a (start a)) ` T \<and>
        (\<lambda>a. g a (start a)) ` T \<subseteq> X \<and> (\<lambda>a. g a (cur a)) ` T \<subseteq> Y \<and>
        (\<forall>a. a \<notin> T \<longrightarrow> cur a = start a))"

subsection \<open>A worked example\<close>

text \<open>An item with a title and two parts, each part with a label; the theorems below are
  run on it. The repository of the example is the number of patches it has taken.\<close>

definition ex_title :: property where
  "ex_title = \<lparr>prop_values = [PTerm (RDFLiteral ''A'')], prop_uri = ''dcterms:title'',
     get_term = RDFLiteral, getitem = Map.empty\<rparr>"

definition ex_part :: property where
  "ex_part = \<lparr>prop_values = [], prop_uri = ''pcdm:hasMember'', get_term = URIRef,
     getitem = [''http://r/1/part1'' \<mapsto> 1, ''http://r/1/part2'' \<mapsto> 2]\<rparr>"

definition ex_part_label :: property where
  "ex_part_label = \<lparr>prop_values = [PTerm (RDFLiteral ''L1''), PTerm (RDFLiteral ''L2'')],
     prop_uri = ''rdfs:label'', get_term = RDFLiteral, getitem = Map.empty\<rparr>"

definition ex_heap :: "nat \<Rightarrow> embedded" where
  "ex_heap a =
     (if a = 1 then
        \<lparr>obj_uri = ''http://r/1/part1'', obj_props = [''label'' \<mapsto> [PTerm (RDFLiteral ''L1'')]]\<rparr>
      else if a = 2 then
        \<lparr>obj_uri = ''http://r/1/part2'', obj_props = [''label'' \<mapsto> [PTerm (RDFLiteral ''L2'')]]\<rparr>
      else \<lparr>obj_uri = [], obj_props = Map.empty\<rparr>)"

definition ex_item :: resource where
  "ex_item = \<lparr>item_uri = ''http://r/1'',
     attrs = [''title'' \<mapsto> ex_title, ''part'' \<mapsto> ex_part, ''part.label'' \<mapsto> ex_part_label],
     heap = ex_heap\<rparr>"

definition ex_state :: diff_state where
  "ex_state = \<lparr>item = ex_item, delete_graph = [], insert_graph = []\<rparr>"

definition ex_positions :: "nat \<rightharpoonup> nat" where
  "ex_positions = [0 \<mapsto> 1, 1 \<mapsto> 2]"

definition ex_index :: index where
  "ex_index = [''part'' \<mapsto> ex_positions]"

definition ex_row :: row where
  "ex_row = [''URI'' \<mapsto> ''http://r/1'', ''INDEX'' \<mapsto> ''part[0]=/part1;part[1]=/part2'',
     ''Title'' \<mapsto> ''A|B'', ''Label'' \<mapsto> ''L1|X2'']"

definition ex_nt :: "graph \<Rightarrow> string" where
  "ex_nt g = concat (map (\<lambda>(s, p, ob). s @ '' '' @ p @ '' '' @ str_of (PTerm ob) @ '' . '') g)"

definition ex_collab :: "nat collaborators" where
  "ex_collab = \<lparr>HEADER_MAP = [(''title'', ''Title''), (''part.label'', ''Label'')],
     from_graph = (\<lambda>repo u. if u = ''http://r/1'' then Inr ex_item else Inl (Collaborator ''404'')),
     patch = (\<lambda>repo it q. Inr (Suc repo)),
     serialize_nt = ex_nt\<rparr>"

text \<open>A second row for the same item, whose index descriptor names the first part at both
  positions.\<close>

definition ex_alias_index :: index where
  "ex_alias_index = [''part'' \<mapsto> [0 \<mapsto> 1, 1 \<mapsto> 1]]"

definition ex_alias_row :: row where
  "ex_alias_row = [''URI'' \<mapsto> ''http://r/1'', ''INDEX'' \<mapsto> ''part[0]=/part1;part[1]=/part1'',
     ''Title'' \<mapsto> ''A'', ''Label'' \<mapsto> ''X|L1'']"

text \<open>A third row with that descriptor, with two new labels for the one part.\<close>

definition ex_twice_row :: row where
  "ex_twice_row = [''URI'' \<mapsto> ''http://r/1'', ''INDEX'' \<mapsto> ''part[0]=/part1;part[1]=/part1'',
     ''Title'' \<mapsto> ''A'', ''Label'' \<mapsto> ''X|Y'']"

text \<open>The two graphs of a result, for running the examples.\<close>

definition graphs_of :: "error + diff_state \<Rightarrow> error + graph \<times> graph" where
  "graphs_of r = (case r of Inl e \<Rightarrow> Inl e | Inr st \<Rightarrow> Inr (delete_graph st, insert_graph st))"

text \<open>A row for a resource the repository of the example does not have, and a file of five
  rows.\<close>

definition ex_missing_row :: row where
  "ex_missing_row = [''URI'' \<mapsto> ''http://r/404'', ''INDEX'' \<mapsto> [], ''Title'' \<mapsto> ''A'',
     ''Label'' \<mapsto> ''L1'']"

definition ex_rows :: "row list" where
  "ex_rows = [ex_row, ex_alias_row, ex_missing_row, ex_missing_row, ex_missing_row]"

text \<open>The three counters of a run that returned, for running the examples.\<close>

definition counts_of :: "event list \<times> (error + counters \<times> 'r) \<Rightarrow> error + nat \<times> nat \<times> nat" where
  "counts_of x =
     (case snd x of
        Inl e \<Rightarrow> Inl e
      | Inr (cnt, repo) \<Rightarrow> Inr (row_count cnt, updated_count cnt, unchanged_count cnt))"

text \<open>A model whose only mapped property is the label of the parts, and a row with three
  labels for the two indexed parts.\<close>

definition ex_label_collab :: "nat collaborators" where
  "ex_label_collab = ex_collab\<lparr>HEADER_MAP := [(''part.label'', ''Label'')]\<rparr>"

definition ex_overflow_row :: row where
  "ex_overflow_row = [''URI'' \<mapsto> ''http://r/1'', ''INDEX'' \<mapsto> ''part[0]=/part1;part[1]=/part2'',
     ''Title'' \<mapsto> ''A'', ''Label'' \<mapsto> ''L1|L2|L3'']"

text \<open>A row whose every cell matches the current values of the item.\<close>

definition ex_match_row :: row where
  "ex_match_row = [''URI'' \<mapsto> ''http://r/1'', ''INDEX'' \<mapsto> ''part[0]=/part1;part[1]=/part2'',
     ''Title'' \<mapsto> ''A'', ''Label'' \<mapsto> ''L1|L2'']"

text \<open>A row with one label for the two parts.\<close>

definition ex_short_row :: row where
  "ex_short_row = [''URI'' \<mapsto> ''http://r/1'', ''INDEX'' \<mapsto> ''part[0]=/part1;part[1]=/part2'',
     ''Title'' \<mapsto> ''A'', ''Label'' \<mapsto> ''L1'']"

text \<open>The strings of the values a result holds for an attribute path, and those of the inner
  values of the embedded objects at some addresses, for running the examples.\<close>

definition values_of :: "error + diff_state \<Rightarrow> string \<Rightarrow> error + string list option" where
  "values_of r path =
     (case r of
        Inl e \<Rightarrow> Inl e
      | Inr st \<Rightarrow> Inr (map_option (\<lambda>p. map str_of (prop_values p)) (attrs (item st) path)))"

definition inner_values_of ::
  "error + diff_state \<Rightarrow> string \<Rightarrow> nat list \<Rightarrow> error + string list option list" where
  "inner_values_of r name addresses =
     (case r of
        Inl e \<Rightarrow> Inl e
      | Inr st \<Rightarrow>
          Inr (map (\<lambda>a. map_option (map str_of) (obj_props (heap (item st) a) name)) addresses))"

text \<open>A row with two titles and one new label for the two parts.\<close>

definition ex_one_row :: row where
  "ex_one_row = [''URI'' \<mapsto> ''http://r/1'', ''INDEX'' \<mapsto> ''part[0]=/part1;part[1]=/part2'',
     ''Title'' \<mapsto> ''A|B'', ''Label'' \<mapsto> ''X1'']"

text \<open>The item with a second attribute that holds the first part, a model that maps the label
  of a part under both attributes, each with its own predicate, and a row whose descriptor
  files the first part under both.\<close>

definition ex_member :: property where
  "ex_member = \<lparr>prop_values = [], prop_uri = ''ore:aggregates'', get_term = URIRef,
     getitem = [''http://r/1/part1'' \<mapsto> 1]\<rparr>"

definition ex_member_label :: property where
  "ex_member_label = \<lparr>prop_values = [PTerm (RDFLiteral ''L1'')], prop_uri = ''skos:prefLabel'',
     get_term = RDFLiteral, getitem = Map.empty\<rparr>"

definition ex_shared_item :: resource where
  "ex_shared_item = ex_item\<lparr>attrs :=
     (attrs ex_item)(''member'' \<mapsto> ex_member, ''member.label'' \<mapsto> ex_member_label)\<rparr>"

definition ex_shared_index :: index where
  "ex_shared_index = [''part'' \<mapsto> [0 \<mapsto> 1], ''member'' \<mapsto> [0 \<mapsto> 1]]"

definition ex_shared_row :: row where
  "ex_shared_row = [''URI'' \<mapsto> ''http://r/1'', ''INDEX'' \<mapsto> ''part[0]=/part1;member[0]=/part1'',
     ''Label'' \<mapsto> ''X'', ''Name'' \<mapsto> ''Y'']"

definition ex_shared_map :: "(string \<times> string) list" where
  "ex_shared_map = [(''part.label'', ''Label''), (''member.label'', ''Name'')]"

section \<open>Properties\<close>

subsection \<open>Loops, graphs and sets\<close>

lemma py_split_nonempty: "py_split sep s \<noteq> []"
  by (induction s) (auto split: list.splits)

lemma for_loop_append:
  "for_loop body (xs @ ys) s =
     (case for_loop body xs s of Inl e \<Rightarrow> Inl e | Inr s' \<Rightarrow> for_loop body ys s')"
  by (induction xs arbitrary: s) (auto split: sum.splits)

lemma set_graph_add: "set (graph_add t g) = insert t (set g)"
  by (auto simp: graph_add_def)

lemma distinct_graph_add: "distinct g \<Longrightarrow> distinct (graph_add t g)"
  by (simp add: graph_add_def)

lemma set_fold_graph_add:
  "set (fold (\<lambda>v. graph_add (f v)) vs g) = set g \<union> f ` set vs"
  by (induction vs arbitrary: g) (auto simp: set_graph_add)

lemma distinct_fold_graph_add:
  "distinct g \<Longrightarrow> distinct (fold (\<lambda>v. graph_add (f v)) vs g)"
  by (induction vs arbitrary: g) (auto simp: distinct_graph_add)

lemma set_py_set_diff: "set (py_set_diff xs ys) = set xs - set ys"
  by (auto simp: py_set_diff_def)

lemma distinct_py_set_diff: "distinct (py_set_diff xs ys)"
  by (simp add: py_set_diff_def)

lemma cancel_loop_sets:
  "cancel_loop ss (d, i) = (d', i') \<Longrightarrow>
     set d' = set d - (set ss \<inter> set i) \<and> set i' = set i - set ss"
proof (induction ss arbitrary: d i)
  case Nil
  then show ?case by simp
next
  case (Cons s ss)
  show ?case
  proof (cases "s \<in> set i")
    case True
    with Cons.prems have "cancel_loop ss (graph_remove s d, graph_remove s i) = (d', i')"
      by simp
    from Cons.IH [OF this] True show ?thesis
      by (auto simp: graph_remove_def)
  next
    case False
    with Cons.prems have "cancel_loop ss (d, i) = (d', i')"
      by simp
    from Cons.IH [OF this] False show ?thesis
      by auto
  qed
qed

lemma cancel_sets:
  "cancel d i = (d', i') \<Longrightarrow> set d' = set d - set i \<and> set i' = set i - set d"
  using cancel_loop_sets [of d d i d' i'] by (auto simp: cancel_def)

lemma cancel_empty: "cancel [] [] = ([], [])"
  by (simp add: cancel_def)

lemma graphs_of_Inr:
  "graphs_of r = Inr (d, i) \<Longrightarrow> \<exists>st. r = Inr st \<and> delete_graph st = d \<and> insert_graph st = i"
  by (auto simp: graphs_of_def split: sum.splits)

subsection \<open>Direct mode\<close>

text \<open>C1. For a direct-mode property (no dot in the attribute path), with \<open>old\<close> the strings
  of the current values and \<open>new\<close> the values of the cell: the diff of the property succeeds,
  adds to the delete graph exactly the triples (row URI, predicate, term of \<open>v\<close>) for \<open>v\<close> in
  \<open>set old - set new\<close>, and to the insert graph exactly those for \<open>v\<close> in
  \<open>set new - set old\<close>. The values are compared as sets, so a repeated value counts once,
  and each member of a difference is added once.\<close>

theorem direct_mode_set_difference:
  assumes "CHR ''.'' \<notin> set path"
    and "attrs (item st) path = Some pr"
    and "row header = Some cell"
  shows "\<exists>st'. diff_property uri row index (header, path) st = Inr st' \<and>
           set (delete_graph st') = set (delete_graph st) \<union>
             (\<lambda>v. (uri, prop_uri pr, get_term pr v)) `
               (set (map str_of (prop_values pr)) - set (new_values_of cell)) \<and>
           set (insert_graph st') = set (insert_graph st) \<union>
             (\<lambda>v. (uri, prop_uri pr, get_term pr v)) `
               (set (new_values_of cell) - set (map str_of (prop_values pr))) \<and>
           distinct (py_set_diff (map str_of (prop_values pr)) (new_values_of cell)) \<and>
           distinct (py_set_diff (new_values_of cell) (map str_of (prop_values pr)))"
proof -
  let ?old = "map str_of (prop_values pr)"
  let ?new = "new_values_of cell"
  have run: "diff_property uri row index (header, path) st =
      Inr (diff_direct uri path pr ?old ?new st)"
    using assms by (simp add: diff_property_def)
  have del: "set (delete_graph (diff_direct uri path pr ?old ?new st)) =
      set (delete_graph st) \<union> (\<lambda>v. (uri, prop_uri pr, get_term pr v)) ` (set ?old - set ?new)"
    by (simp add: diff_direct_def set_fold_graph_add set_py_set_diff)
  have ins: "set (insert_graph (diff_direct uri path pr ?old ?new st)) =
      set (insert_graph st) \<union> (\<lambda>v. (uri, prop_uri pr, get_term pr v)) ` (set ?new - set ?old)"
    by (simp add: diff_direct_def set_fold_graph_add set_py_set_diff)
  from run del ins show ?thesis
    using distinct_py_set_diff by blast
qed

text \<open>The scenario of the spec: the title is \<open>A\<close>, the cell is \<open>A|B\<close>; nothing is deleted and
  the one triple for \<open>B\<close> is inserted.\<close>

theorem direct_mode_set_difference_witness:
  "\<exists>st'. diff_property ''http://r/1'' ex_row ex_index (''Title'', ''title'') ex_state = Inr st' \<and>
     set (delete_graph st') = {} \<and>
     set (insert_graph st') = {(''http://r/1'', ''dcterms:title'', RDFLiteral ''B'')}"
proof -
  have a: "CHR ''.'' \<notin> set ''title''" by simp
  have b: "attrs (item ex_state) ''title'' = Some ex_title"
    by (simp add: ex_state_def ex_item_def)
  have c: "ex_row ''Title'' = Some ''A|B''" by (simp add: ex_row_def)
  have n: "new_values_of ''A|B'' = [''A'', ''B'']"
    by (simp add: new_values_of_def py_strip_def is_space_def)
  from direct_mode_set_difference [where path = "''title''" and st = ex_state and pr = ex_title
      and row = ex_row and header = "''Title''" and cell = "''A|B''" and uri = "''http://r/1''"
      and index = ex_index, OF a b c]
  show ?thesis
    by (auto simp: n ex_title_def ex_state_def)
qed

subsection \<open>Cancellation\<close>

text \<open>C2. When the diff of a row returns, its delete graph and its insert graph have no
  triple in common: the property loop had produced some state, and the cancellation pass took
  out of each graph every triple that state had in both.\<close>

theorem cancellation_disjoint:
  assumes "diff_row pa uri row index item0 = Inr st'"
  shows "set (delete_graph st') \<inter> set (insert_graph st') = {} \<and>
         (\<exists>st. for_loop (diff_property uri row index) pa
                  \<lparr>item = item0, delete_graph = [], insert_graph = []\<rparr> = Inr st \<and>
               set (delete_graph st') = set (delete_graph st) - set (insert_graph st) \<and>
               set (insert_graph st') = set (insert_graph st) - set (delete_graph st))"
proof -
  from assms obtain st where
    run: "for_loop (diff_property uri row index) pa
            \<lparr>item = item0, delete_graph = [], insert_graph = []\<rparr> = Inr st"
    by (auto simp: diff_row_def split: sum.splits)
  obtain d i where c: "cancel (delete_graph st) (insert_graph st) = (d, i)"
    by (cases "cancel (delete_graph st) (insert_graph st)")
  from assms run c have st': "st' = st\<lparr>delete_graph := d, insert_graph := i\<rparr>"
    by (simp add: diff_row_def)
  from cancel_sets [OF c] have "set d = set (delete_graph st) - set (insert_graph st)"
    and "set i = set (insert_graph st) - set (delete_graph st)"
    by simp_all
  with run st' show ?thesis by auto
qed

text \<open>On the row whose index names one part twice, the label goes from \<open>L1\<close> to \<open>X\<close> and back:
  the loop produces both triples in both graphs, and the pass leaves both graphs empty.\<close>

theorem cancellation_disjoint_witness:
  "\<exists>st'. diff_row [(''Label'', ''part.label'')] ''http://r/1'' ex_alias_row ex_alias_index ex_item
            = Inr st' \<and>
     set (delete_graph st') \<inter> set (insert_graph st') = {} \<and>
     delete_graph st' = [] \<and> insert_graph st' = [] \<and>
     (\<exists>st. for_loop (diff_property ''http://r/1'' ex_alias_row ex_alias_index)
              [(''Label'', ''part.label'')]
              \<lparr>item = ex_item, delete_graph = [], insert_graph = []\<rparr> = Inr st \<and>
           set (delete_graph st) =
             {(''http://r/1/part1'', ''rdfs:label'', RDFLiteral ''L1''),
              (''http://r/1/part1'', ''rdfs:label'', RDFLiteral ''X'')} \<and>
           set (insert_graph st) = set (delete_graph st))"
proof -
  have "graphs_of (diff_row [(''Label'', ''part.label'')] ''http://r/1'' ex_alias_row
          ex_alias_index ex_item) = Inr ([], [])"
    by code_simp
  from graphs_of_Inr [OF this] obtain st' where
    r: "diff_row [(''Label'', ''part.label'')] ''http://r/1'' ex_alias_row ex_alias_index ex_item
          = Inr st'"
    and e: "delete_graph st' = []" "insert_graph st' = []"
    by blast
  have "graphs_of (for_loop (diff_property ''http://r/1'' ex_alias_row ex_alias_index)
          [(''Label'', ''part.label'')]
          \<lparr>item = ex_item, delete_graph = [], insert_graph = []\<rparr>) =
        Inr ([(''http://r/1/part1'', ''rdfs:label'', RDFLiteral ''L1''),
              (''http://r/1/part1'', ''rdfs:label'', RDFLiteral ''X'')],
             [(''http://r/1/part1'', ''rdfs:label'', RDFLiteral ''X''),
              (''http://r/1/part1'', ''rdfs:label'', RDFLiteral ''L1'')])"
    by code_simp
  from graphs_of_Inr [OF this] obtain st where
    l: "for_loop (diff_property ''http://r/1'' ex_alias_row ex_alias_index)
          [(''Label'', ''part.label'')]
          \<lparr>item = ex_item, delete_graph = [], insert_graph = []\<rparr> = Inr st"
    and g: "delete_graph st = [(''http://r/1/part1'', ''rdfs:label'', RDFLiteral ''L1''),
              (''http://r/1/part1'', ''rdfs:label'', RDFLiteral ''X'')]"
       "insert_graph st = [(''http://r/1/part1'', ''rdfs:label'', RDFLiteral ''X''),
              (''http://r/1/part1'', ''rdfs:label'', RDFLiteral ''L1'')]"
    by blast
  from g have "set (delete_graph st) =
             {(''http://r/1/part1'', ''rdfs:label'', RDFLiteral ''L1''),
              (''http://r/1/part1'', ''rdfs:label'', RDFLiteral ''X'')}"
    and "set (insert_graph st) = set (delete_graph st)"
    by auto
  with cancellation_disjoint [OF r] r e l show ?thesis
    by blast
qed

subsection \<open>The loop over the rows\<close>

lemma counts_of_Inr:
  "counts_of x = Inr (a, b, c) \<Longrightarrow>
     \<exists>ev cnt repo. x = (ev, Inr (cnt, repo)) \<and> row_count cnt = a \<and> updated_count cnt = b \<and>
        unchanged_count cnt = c"
  by (cases x) (auto simp: counts_of_def split: sum.splits)

lemma row_body_result:
  assumes "row_body c row (cnt, repo) = (ev, Inr (cnt', repo'))"
  shows "row_count cnt' = row_count cnt + 1 \<and> fetched ev = row_uri row \<and> length (row_uri row) = 1 \<and>
     ((updated_count cnt' = updated_count cnt + 1 \<and> unchanged_count cnt' = unchanged_count cnt \<and> length (patches ev) = 1) \<or>
      (updated_count cnt' = updated_count cnt \<and> unchanged_count cnt' = unchanged_count cnt + 1 \<and> patches ev = []))"
  using assms
  by (auto simp: row_body_def Let_def row_uri_def split: option.splits sum.splits if_splits)

lemma row_body_fetched:
  "row_body c row st = (ev, res) \<Longrightarrow> prefix (fetched ev) (row_uri row)"
  by (cases st) (auto simp: row_body_def Let_def row_uri_def split: option.splits sum.splits if_splits)

lemma row_loop_counters:
  "row_loop c limit n rows (cnt, repo) = (ev, Inr (cnt', repo')) \<Longrightarrow>
     row_count cnt = updated_count cnt + unchanged_count cnt \<Longrightarrow>
     row_count cnt' = updated_count cnt' + unchanged_count cnt'"
proof (induction rows arbitrary: n cnt repo ev)
  case Nil
  then show ?case by simp
next
  case (Cons row rows)
  show ?case
  proof (cases "case limit of None \<Rightarrow> False | Some l \<Rightarrow> int n > l")
    case True
    with Cons.prems show ?thesis by simp
  next
    case False
    obtain ev1 r1 where b: "row_body c row (cnt, repo) = (ev1, r1)"
      by (cases "row_body c row (cnt, repo)")
    show ?thesis
    proof (cases r1)
      case (Inl e)
      with Cons.prems False b show ?thesis by simp
    next
      case (Inr st1)
      obtain cnt1 repo1 where st1: "st1 = (cnt1, repo1)" by (cases st1)
      obtain ev2 r2 where l: "row_loop c limit (Suc n) rows (cnt1, repo1) = (ev2, r2)"
        by (cases "row_loop c limit (Suc n) rows (cnt1, repo1)")
      from Cons.prems(1) False b Inr st1 l have r2: "r2 = Inr (cnt', repo')"
        by simp
      from row_body_result [of c row cnt repo ev1 cnt1 repo1] b Inr st1 Cons.prems(2)
      have "row_count cnt1 = updated_count cnt1 + unchanged_count cnt1"
        by auto
      from Cons.IH [OF l [unfolded r2] this] show ?thesis .
    qed
  qed
qed

lemma fetched_append: "fetched (ev @ ev') = fetched ev @ fetched ev'"
  by (induction ev rule: fetched.induct) auto

lemma row_loop_limit:
  "row_loop c (Some N) n rows (cnt, repo) = (ev, res) \<Longrightarrow>
     prefix (fetched ev) (concat (map row_uri (take (nat (N + 1 - int n)) rows))) \<and>
     (\<forall>cnt' repo'. res = Inr (cnt', repo') \<longrightarrow>
        row_count cnt' = row_count cnt + min (nat (N + 1 - int n)) (length rows) \<and>
        fetched ev = concat (map row_uri (take (nat (N + 1 - int n)) rows)) \<and>
        length (fetched ev) = min (nat (N + 1 - int n)) (length rows))"
proof (induction rows arbitrary: n cnt repo ev res)
  case Nil
  then show ?case by auto
next
  case (Cons row rows)
  show ?case
  proof (cases "int n > N")
    case True
    then have "nat (N + 1 - int n) = 0" by simp
    moreover from Cons.prems True have "ev = []" "res = Inr (cnt, repo)" by simp_all
    ultimately show ?thesis by simp
  next
    case False
    define K where "K = nat (N + 1 - int (Suc n))"
    from False have k: "nat (N + 1 - int n) = Suc K"
      by (simp add: K_def)
    have t: "concat (map row_uri (take (Suc K) (row # rows))) =
        row_uri row @ concat (map row_uri (take K rows))"
      by simp
    have m: "min (Suc K) (length (row # rows)) = Suc (min K (length rows))"
      by simp
    obtain ev1 r1 where b: "row_body c row (cnt, repo) = (ev1, r1)"
      by (cases "row_body c row (cnt, repo)")
    show ?thesis
    proof (cases r1)
      case (Inl e)
      with Cons.prems False b have e: "ev = ev1" "res = Inl e" by simp_all
      from row_body_fetched [OF b] have "prefix (fetched ev1) (row_uri row)" .
      then have "prefix (fetched ev1) (row_uri row @ concat (map row_uri (take K rows)))"
        by (rule prefix_prefix)
      with e show ?thesis
        unfolding k t by simp
    next
      case (Inr st1)
      obtain cnt1 repo1 where st1: "st1 = (cnt1, repo1)" by (cases st1)
      obtain ev2 r2 where l: "row_loop c (Some N) (Suc n) rows (cnt1, repo1) = (ev2, r2)"
        by (cases "row_loop c (Some N) (Suc n) rows (cnt1, repo1)")
      from Cons.prems False b Inr st1 l have e: "ev = ev1 @ ev2" "res = r2"
        by simp_all
      from b Inr st1 have b': "row_body c row (cnt, repo) = (ev1, Inr (cnt1, repo1))"
        by simp
      from row_body_result [OF b']
      have f: "fetched ev1 = row_uri row" "row_count cnt1 = row_count cnt + 1"
        "length (row_uri row) = 1"
        by simp_all
      note ih = Cons.IH [OF l, folded K_def]
      from ih have p: "prefix (fetched ev2) (concat (map row_uri (take K rows)))"
        by simp
      have first: "prefix (fetched ev) (concat (map row_uri (take (Suc K) (row # rows))))"
        unfolding t e fetched_append f(1) using p by simp
      have second: "row_count cnt' = row_count cnt + min (Suc K) (length (row # rows)) \<and>
          fetched ev = concat (map row_uri (take (Suc K) (row # rows))) \<and>
          length (fetched ev) = min (Suc K) (length (row # rows))"
        if "res = Inr (cnt', repo')" for cnt' repo'
      proof -
        from that e have "r2 = Inr (cnt', repo')" by simp
        with ih have "row_count cnt' = row_count cnt1 + min K (length rows)"
          and "fetched ev2 = concat (map row_uri (take K rows))"
          and "length (fetched ev2) = min K (length rows)"
          by blast+
        then show ?thesis
          unfolding t m e fetched_append f(1,2) using f(3) by simp
      qed
      from first second show ?thesis
        unfolding k by blast
    qed
  qed
qed

text \<open>C9. With a row limit \<open>N\<close>, the URIs fetched are an initial part of the URI cells of the
  first \<open>min N (length rows)\<close> rows, whatever the run does: no later row is fetched. When the
  run returns, it has processed exactly that many rows: the row counter, the sum of the two
  outcome counters and the number of fetches all equal it. (For a negative \<open>N\<close> that number is
  zero.)\<close>

theorem row_limit:
  assumes "Command_call c repo (Some N) rows = (ev, res)"
  shows "prefix (fetched ev) (concat (map row_uri (take (nat N) rows))) \<and>
         (\<forall>cnt repo'. res = Inr (cnt, repo') \<longrightarrow>
            row_count cnt = nat (min N (int (length rows))) \<and>
            updated_count cnt + unchanged_count cnt = nat (min N (int (length rows))) \<and>
            length (fetched ev) = nat (min N (int (length rows))) \<and>
            fetched ev = concat (map row_uri (take (nat N) rows)))"
proof -
  let ?z = "\<lparr>row_count = 0, updated_count = 0, unchanged_count = 0\<rparr>"
  from assms have l: "row_loop c (Some N) 1 rows (?z, repo) = (ev, res)"
    by (simp add: Command_call_def)
  have m: "min (nat N) (length rows) = nat (min N (int (length rows)))"
    by auto
  have "\<And>cnt repo'. res = Inr (cnt, repo') \<Longrightarrow> row_count cnt = updated_count cnt + unchanged_count cnt"
    using row_loop_counters [of c "Some N" 1 rows ?z repo ev] l by simp
  with row_loop_limit [OF l] m show ?thesis
    by auto
qed

text \<open>The scenario of the spec: a limit of 2 on a file of five rows. Two rows are fetched and
  counted; the other three name a resource whose fetch would fail, and the run returns.\<close>

theorem row_limit_witness:
  "\<exists>ev cnt repo'. Command_call ex_collab 0 (Some 2) ex_rows = (ev, Inr (cnt, repo')) \<and>
     length ex_rows = 5 \<and> row_count cnt = 2 \<and> updated_count cnt = 1 \<and> unchanged_count cnt = 1 \<and>
     fetched ev = [''http://r/1'', ''http://r/1'']"
proof -
  have "counts_of (Command_call ex_collab 0 (Some 2) ex_rows) = Inr (2, 1, 1)"
    by code_simp
  from counts_of_Inr [OF this] obtain ev cnt repo' where
    r: "Command_call ex_collab 0 (Some 2) ex_rows = (ev, Inr (cnt, repo'))"
    and c: "updated_count cnt = 1" "unchanged_count cnt = 1"
    by blast
  have t: "concat (map row_uri (take (nat 2) ex_rows)) = [''http://r/1'', ''http://r/1'']"
    by code_simp
  have n: "length ex_rows = 5" by (simp add: ex_rows_def)
  from row_limit [OF r] r c t n show ?thesis
    by auto
qed

text \<open>C10. When the command returns, the row counter is the sum of the updated and the
  unchanged counter; and every row whose processing completes adds one to the row counter and
  one to exactly one of the two others.\<close>

theorem counters_add_up:
  "(Command_call c repo limit rows = (ev, Inr (cnt, repo')) \<longrightarrow>
      row_count cnt = updated_count cnt + unchanged_count cnt) \<and>
   (row_body c row (cnt0, repo0) = (ev1, Inr (cnt1, repo1)) \<longrightarrow>
      row_count cnt1 = row_count cnt0 + 1 \<and>
      updated_count cnt1 + unchanged_count cnt1 = updated_count cnt0 + unchanged_count cnt0 + 1 \<and>
      (updated_count cnt1 = updated_count cnt0 \<or> unchanged_count cnt1 = unchanged_count cnt0))"
proof (intro conjI impI)
  assume "Command_call c repo limit rows = (ev, Inr (cnt, repo'))"
  then show "row_count cnt = updated_count cnt + unchanged_count cnt"
    using row_loop_counters [of c limit 1 rows _ repo ev cnt repo']
    by (simp add: Command_call_def)
next
  assume b: "row_body c row (cnt0, repo0) = (ev1, Inr (cnt1, repo1))"
  from row_body_result [OF b] show "row_count cnt1 = row_count cnt0 + 1" by simp
  from row_body_result [OF b]
  show "updated_count cnt1 + unchanged_count cnt1 = updated_count cnt0 + unchanged_count cnt0 + 1"
    by auto
  from row_body_result [OF b]
  show "updated_count cnt1 = updated_count cnt0 \<or> unchanged_count cnt1 = unchanged_count cnt0"
    by auto
qed

text \<open>Three rows with no limit: two are updated, the one whose changes cancel is unchanged.\<close>

theorem counters_add_up_witness:
  "\<exists>ev cnt repo'. Command_call ex_collab 0 None [ex_row, ex_alias_row, ex_row] = (ev, Inr (cnt, repo')) \<and>
     row_count cnt = 3 \<and> updated_count cnt = 2 \<and> unchanged_count cnt = 1"
proof -
  have "counts_of (Command_call ex_collab 0 None [ex_row, ex_alias_row, ex_row]) = Inr (3, 2, 1)"
    by code_simp
  from counts_of_Inr [OF this] obtain ev cnt repo' where
    r: "Command_call ex_collab 0 None [ex_row, ex_alias_row, ex_row] = (ev, Inr (cnt, repo'))"
    and c: "updated_count cnt = 2" "unchanged_count cnt = 1"
    by blast
  from counters_add_up [of ex_collab 0 None "[ex_row, ex_alias_row, ex_row]" ev cnt repo'] r c
  show ?thesis by auto
qed

subsection \<open>The index builder\<close>

text \<open>C6. On the empty descriptor \<^verbatim>\<open>''.split(';')\<close> is the list of one empty entry, and
  \<^verbatim>\<open>key, uriref = ''.split('=')\<close> cannot be unpacked: the builder raises \<^verbatim>\<open>ValueError\<close> for
  every item, where the claim has it return an empty index.\<close>

theorem empty_descriptor_raises: "build_lookup_index it [] = Inl ValueError"
  by (simp add: build_lookup_index_def index_entry_def)

subsection \<open>Embedded mode\<close>

lemma enumerate_take_Suc:
  "i < length vs \<Longrightarrow>
     List.enumerate 0 (take (Suc i) vs) = List.enumerate 0 (take i vs) @ [(i, vs ! i)]"
  by (simp add: take_Suc_conv_app_nth enumerate_append_eq)

lemma enumerate_split:
  "List.enumerate 0 vs = List.enumerate 0 (take k vs) @ List.enumerate (min k (length vs)) (drop k vs)"
  using enumerate_append_eq [of 0 "take k vs" "drop k vs"] by (simp add: min.commute)

lemma for_loop_snoc:
  "for_loop body (xs @ [x]) s =
     (case for_loop body xs s of Inl e \<Rightarrow> Inl e | Inr s' \<Rightarrow> body x s')"
  by (simp add: for_loop_append split: sum.splits)

lemma for_loop_error_append:
  "for_loop body xs s = Inl e \<Longrightarrow> for_loop body (xs @ ys) s = Inl e"
  by (simp add: for_loop_append)

lemma for_loop_error_at:
  "for_loop body pre s = Inr s1 \<Longrightarrow> body x s1 = Inl e \<Longrightarrow>
     for_loop body (pre @ x # post) s = Inl e"
  by (simp add: for_loop_append)

lemma diff_property_embedded:
  assumes "CHR ''.'' \<in> set path" and "py_split_max CHR ''.'' 2 path = [outer, inner]"
    and "attrs (item st0) path = Some pr" and "row header = Some cell"
    and "index outer = Some positions"
  shows "diff_property uri row index (header, path) st0 =
     for_loop (embedded_visit positions inner pr) (List.enumerate 0 (new_values_of cell)) st0"
  using assms by (simp add: diff_property_def)

lemma embedded_visit_Some:
  assumes "positions i = Some a" and "obj_props (heap (item st) a) inner = Some (v # vs)"
  shows "embedded_visit positions inner pr (i, new_value) st =
     Inr (if new_value \<noteq> str_of v then
            st\<lparr>item := (item st)\<lparr>heap :=
                   (heap (item st))(a := setattr (heap (item st) a) inner new_value)\<rparr>,
               delete_graph :=
                 graph_add (obj_uri (heap (item st) a), prop_uri pr, get_term pr (str_of v))
                   (delete_graph st),
               insert_graph :=
                 graph_add (obj_uri (heap (item st) a), prop_uri pr, get_term pr new_value)
                   (insert_graph st)\<rparr>
          else st)"
  using assms by (simp add: embedded_visit_def Let_def)

lemma embedded_visit_None:
  "positions i = None \<Longrightarrow> embedded_visit positions inner pr (i, new_value) st = Inl KeyError"
  by (simp add: embedded_visit_def)

text \<open>C3. For an embedded-mode property \<open>outer.inner\<close> whose outer segment is a key of the
  index, the diff of the property is the loop over the enumerated new values. When that loop
  has reached position \<open>i\<close> in state \<open>st\<close>, the position resolves to the object at \<open>a\<close>, and
  the object has a current first inner value \<open>v\<close>, the loop passes position \<open>i\<close> as follows: if
  the new value differs from the string of \<open>v\<close>, the inner value of the object becomes the one
  new value, one triple with the old value is added to the delete graph and one with the new
  value to the insert graph, both with the URI of the object as subject; if they are equal,
  the state is unchanged.\<close>

theorem embedded_mode_update:
  assumes "CHR ''.'' \<in> set path" and "py_split_max CHR ''.'' 2 path = [outer, inner]"
    and "attrs (item st0) path = Some pr" and "row header = Some cell"
    and "index outer = Some positions"
    and "i < length (new_values_of cell)"
    and "for_loop (embedded_visit positions inner pr)
           (List.enumerate 0 (take i (new_values_of cell))) st0 = Inr st"
    and "positions i = Some a"
    and "obj_props (heap (item st) a) inner = Some (v # vs)"
  shows "diff_property uri row index (header, path) st0 =
           for_loop (embedded_visit positions inner pr)
             (List.enumerate 0 (new_values_of cell)) st0 \<and>
         for_loop (embedded_visit positions inner pr)
           (List.enumerate 0 (take (Suc i) (new_values_of cell))) st0 =
           Inr (if new_values_of cell ! i \<noteq> str_of v then
                  st\<lparr>item := (item st)\<lparr>heap := (heap (item st))
                         (a := (heap (item st) a)\<lparr>obj_props :=
                            (obj_props (heap (item st) a))(inner \<mapsto> [PStr (new_values_of cell ! i)])\<rparr>)\<rparr>,
                     delete_graph :=
                       graph_add (obj_uri (heap (item st) a), prop_uri pr, get_term pr (str_of v))
                         (delete_graph st),
                     insert_graph :=
                       graph_add (obj_uri (heap (item st) a), prop_uri pr,
                           get_term pr (new_values_of cell ! i))
                         (insert_graph st)\<rparr>
                else st)"
proof
  show "diff_property uri row index (header, path) st0 =
      for_loop (embedded_visit positions inner pr) (List.enumerate 0 (new_values_of cell)) st0"
    using assms(1-5) by (rule diff_property_embedded)
next
  have "for_loop (embedded_visit positions inner pr)
      (List.enumerate 0 (take (Suc i) (new_values_of cell))) st0 =
      embedded_visit positions inner pr (i, new_values_of cell ! i) st"
    using assms(6,7) by (simp add: enumerate_take_Suc for_loop_snoc)
  also have "\<dots> = Inr (if new_values_of cell ! i \<noteq> str_of v then
                  st\<lparr>item := (item st)\<lparr>heap := (heap (item st))
                         (a := (heap (item st) a)\<lparr>obj_props :=
                            (obj_props (heap (item st) a))(inner \<mapsto> [PStr (new_values_of cell ! i)])\<rparr>)\<rparr>,
                     delete_graph :=
                       graph_add (obj_uri (heap (item st) a), prop_uri pr, get_term pr (str_of v))
                         (delete_graph st),
                     insert_graph :=
                       graph_add (obj_uri (heap (item st) a), prop_uri pr,
                           get_term pr (new_values_of cell ! i))
                         (insert_graph st)\<rparr>
                else st)"
    using assms(8,9) by (simp add: embedded_visit_def Let_def setattr_def)
  finally show "for_loop (embedded_visit positions inner pr)
      (List.enumerate 0 (take (Suc i) (new_values_of cell))) st0 = \<dots>" .
qed

text \<open>On the example row the first label is the current one and the second is new: position 0
  leaves the state as it is, position 1 overwrites the label of the second part and adds one
  triple to each graph.\<close>

theorem embedded_mode_update_witness:
  "diff_property ''http://r/1'' ex_row ex_index (''Label'', ''part.label'') ex_state =
     for_loop (embedded_visit ex_positions ''label'' ex_part_label)
       (List.enumerate 0 (new_values_of ''L1|X2'')) ex_state \<and>
   for_loop (embedded_visit ex_positions ''label'' ex_part_label)
       (List.enumerate 0 (take (Suc 0) (new_values_of ''L1|X2''))) ex_state = Inr ex_state \<and>
   (\<exists>st'. for_loop (embedded_visit ex_positions ''label'' ex_part_label)
       (List.enumerate 0 (take (Suc (Suc 0)) (new_values_of ''L1|X2''))) ex_state = Inr st' \<and>
      obj_props (heap (item st') 1) ''label'' = Some [PTerm (RDFLiteral ''L1'')] \<and>
      obj_props (heap (item st') 2) ''label'' = Some [PStr ''X2''] \<and>
      delete_graph st' = [(''http://r/1/part2'', ''rdfs:label'', RDFLiteral ''L2'')] \<and>
      insert_graph st' = [(''http://r/1/part2'', ''rdfs:label'', RDFLiteral ''X2'')])"
proof -
  have n: "new_values_of ''L1|X2'' = [''L1'', ''X2'']"
    by (simp add: new_values_of_def py_strip_def is_space_def)
  have a1: "CHR ''.'' \<in> set ''part.label''" by simp
  have a2: "py_split_max CHR ''.'' 2 ''part.label'' = [''part'', ''label'']"
    by (simp add: numeral_2_eq_2)
  have a3: "attrs (item ex_state) ''part.label'' = Some ex_part_label"
    by (simp add: ex_state_def ex_item_def)
  have a4: "ex_row ''Label'' = Some ''L1|X2''" by (simp add: ex_row_def)
  have a5: "ex_index ''part'' = Some ex_positions" by (simp add: ex_index_def)
  have a6: "Suc 0 < length (new_values_of ''L1|X2'')" by (simp add: n)
  have a7: "for_loop (embedded_visit ex_positions ''label'' ex_part_label)
       (List.enumerate 0 (take (Suc 0) (new_values_of ''L1|X2''))) ex_state = Inr ex_state"
    by (simp add: n embedded_visit_def ex_positions_def ex_state_def ex_item_def ex_heap_def)
  have a8: "ex_positions (Suc 0) = Some 2" by (simp add: ex_positions_def)
  have a9: "obj_props (heap (item ex_state) 2) ''label'' = Some (PTerm (RDFLiteral ''L2'') # [])"
    by (simp add: ex_state_def ex_item_def ex_heap_def)
  from embedded_mode_update [where path = "''part.label''" and outer = "''part''" and inner = "''label''"
      and ?st0.0 = ex_state and pr = ex_part_label and row = ex_row and header = "''Label''"
      and cell = "''L1|X2''" and index = ex_index and positions = ex_positions and i = "Suc 0"
      and st = ex_state and a = 2 and v = "PTerm (RDFLiteral ''L2'')" and vs = "[]"
      and uri = "''http://r/1''", OF a1 a2 a3 a4 a5 a6 a7 a8 a9] a7
  show ?thesis
    by (simp add: n ex_state_def ex_item_def ex_heap_def ex_part_label_def graph_add_def)
qed

lemma diff_row_error:
  "for_loop (diff_property uri row index) pa \<lparr>item = item0, delete_graph = [], insert_graph = []\<rparr> = Inl e
     \<Longrightarrow> diff_row pa uri row index item0 = Inl e"
  by (simp add: diff_row_def)

lemma row_body_error:
  assumes "row ''URI'' = Some uri" and "from_graph c repo uri = Inr item0"
    and "row ''INDEX'' = Some index_string" and "build_lookup_index item0 index_string = Inr index"
    and "diff_row (property_attrs (HEADER_MAP c)) uri row index item0 = Inl e"
  shows "row_body c row (cnt, repo) = ([GetGraph uri], Inl e)"
  using assms by (simp add: row_body_def)

lemma row_loop_error:
  assumes "case limit of None \<Rightarrow> True | Some l \<Rightarrow> int n \<le> l"
    and "row_body c row st = (ev, Inl e)"
  shows "row_loop c limit n (row # rows) st = (ev, Inl e)"
  using assms by (auto split: option.splits)

lemma ex_build_index:
  "build_lookup_index ex_item ''part[0]=/part1;part[1]=/part2'' = Inr ex_index"
  by (simp add: build_lookup_index_def index_entry_def match_here_def is_word_def is_digit_def
      int_of_digits_def ex_item_def ex_part_def prop_getitem_def ex_index_def ex_positions_def
      fun_upd_twist)

text \<open>C7, as the claim states it, fails: with three labels for two indexed parts the run ends
  with \<^verbatim>\<open>KeyError\<close>, not \<^verbatim>\<open>IndexError\<close>.\<close>

theorem embedded_overflow_counterexample:
  "snd (Command_call ex_label_collab 0 None [ex_overflow_row]) = Inl KeyError \<and>
   snd (Command_call ex_label_collab 0 None [ex_overflow_row]) \<noteq> Inl IndexError"
proof -
  have "snd (Command_call ex_label_collab 0 None [ex_overflow_row]) = Inl KeyError"
    by code_simp
  then show ?thesis by simp
qed

text \<open>C7, amended. In embedded mode, when the loop over the new values reaches a position
  \<open>i\<close> for which the index has no entry under the outer attribute, the lookup in the dict of
  positions raises \<^verbatim>\<open>KeyError\<close>: the diff of the property, the body of the row loop and the row
  loop itself all end with it, after the one fetch of the row and without a patch.\<close>

theorem embedded_overflow_raises:
  assumes "CHR ''.'' \<in> set path" and "py_split_max CHR ''.'' 2 path = [outer, inner]"
    and "attrs (item st0) path = Some pr" and "row header = Some cell"
    and "index outer = Some positions"
    and "i < length (new_values_of cell)"
    and "for_loop (embedded_visit positions inner pr)
           (List.enumerate 0 (take i (new_values_of cell))) st0 = Inr st"
    and "positions i = None"
    and "row ''URI'' = Some uri" and "from_graph c repo uri = Inr item0"
    and "row ''INDEX'' = Some index_string"
    and "build_lookup_index item0 index_string = Inr index"
    and "property_attrs (HEADER_MAP c) = pre @ (header, path) # post"
    and "for_loop (diff_property uri row index) pre
           \<lparr>item = item0, delete_graph = [], insert_graph = []\<rparr> = Inr st0"
    and "case limit of None \<Rightarrow> True | Some l \<Rightarrow> int n \<le> l"
  shows "diff_property uri row index (header, path) st0 = Inl KeyError \<and>
         row_body c row (cnt, repo) = ([GetGraph uri], Inl KeyError) \<and>
         row_loop c limit n (row # rows) (cnt, repo) = ([GetGraph uri], Inl KeyError)"
proof -
  let ?visit = "embedded_visit positions inner pr"
  let ?new = "new_values_of cell"
  have "for_loop ?visit (List.enumerate 0 (take (Suc i) ?new)) st0 = ?visit (i, ?new ! i) st"
    using assms(6,7) by (simp add: enumerate_take_Suc for_loop_snoc)
  also have "\<dots> = Inl KeyError"
    using assms(8) by (rule embedded_visit_None)
  finally have "for_loop ?visit
      (List.enumerate 0 (take (Suc i) ?new) @ List.enumerate (min (Suc i) (length ?new)) (drop (Suc i) ?new))
      st0 = Inl KeyError"
    by (rule for_loop_error_append)
  then have "for_loop ?visit (List.enumerate 0 ?new) st0 = Inl KeyError"
    using enumerate_split [of ?new "Suc i"] by simp
  moreover have "diff_property uri row index (header, path) st0 =
      for_loop ?visit (List.enumerate 0 ?new) st0"
    using assms(1-5) by (rule diff_property_embedded)
  ultimately have p: "diff_property uri row index (header, path) st0 = Inl KeyError"
    by simp
  from for_loop_error_at [OF assms(14) p]
  have "for_loop (diff_property uri row index) (property_attrs (HEADER_MAP c))
      \<lparr>item = item0, delete_graph = [], insert_graph = []\<rparr> = Inl KeyError"
    by (simp add: assms(13))
  then have "diff_row (property_attrs (HEADER_MAP c)) uri row index item0 = Inl KeyError"
    by (rule diff_row_error)
  from row_body_error [OF assms(9-12) this]
  have b: "row_body c row (cnt, repo) = ([GetGraph uri], Inl KeyError)" .
  from row_loop_error [OF assms(15) b] p b show ?thesis
    by simp
qed

theorem embedded_overflow_raises_witness:
  "diff_property ''http://r/1'' ex_overflow_row ex_index (''Label'', ''part.label'') ex_state
     = Inl KeyError \<and>
   (\<forall>cnt0. row_body ex_label_collab ex_overflow_row (cnt0, 0)
             = ([GetGraph ''http://r/1''], Inl KeyError)) \<and>
   (\<forall>cnt0. row_loop ex_label_collab None 1 [ex_overflow_row, ex_row] (cnt0, 0)
     = ([GetGraph ''http://r/1''], Inl KeyError))"
proof -
  have n: "new_values_of ''L1|L2|L3'' = [''L1'', ''L2'', ''L3'']"
    by (simp add: new_values_of_def py_strip_def is_space_def)
  have a1: "CHR ''.'' \<in> set ''part.label''" by simp
  have a2: "py_split_max CHR ''.'' 2 ''part.label'' = [''part'', ''label'']"
    by (simp add: numeral_2_eq_2)
  have a3: "attrs (item ex_state) ''part.label'' = Some ex_part_label"
    by (simp add: ex_state_def ex_item_def)
  have a4: "ex_overflow_row ''Label'' = Some ''L1|L2|L3''" by (simp add: ex_overflow_row_def)
  have a5: "ex_index ''part'' = Some ex_positions" by (simp add: ex_index_def)
  have a6: "2 < length (new_values_of ''L1|L2|L3'')" by (simp add: n)
  have a7: "for_loop (embedded_visit ex_positions ''label'' ex_part_label)
       (List.enumerate 0 (take 2 (new_values_of ''L1|L2|L3''))) ex_state = Inr ex_state"
    by (simp add: n embedded_visit_def ex_positions_def ex_state_def ex_item_def ex_heap_def)
  have a8: "ex_positions 2 = None" by (simp add: ex_positions_def)
  have a9: "ex_overflow_row ''URI'' = Some ''http://r/1''" by (simp add: ex_overflow_row_def)
  have a10: "from_graph ex_label_collab 0 ''http://r/1'' = Inr ex_item"
    by (simp add: ex_label_collab_def ex_collab_def)
  have a11: "ex_overflow_row ''INDEX'' = Some ''part[0]=/part1;part[1]=/part2''"
    by (simp add: ex_overflow_row_def)
  have a13: "property_attrs (HEADER_MAP ex_label_collab) = [] @ (''Label'', ''part.label'') # []"
    by (simp add: ex_label_collab_def ex_collab_def property_attrs_def)
  have a14: "for_loop (diff_property ''http://r/1'' ex_overflow_row ex_index) []
           \<lparr>item = ex_item, delete_graph = [], insert_graph = []\<rparr> = Inr ex_state"
    by (simp add: ex_state_def)
  have a15: "case None :: int option of None \<Rightarrow> True | Some l \<Rightarrow> int 1 \<le> l" by simp
  from embedded_overflow_raises [where path = "''part.label''" and outer = "''part''"
      and inner = "''label''" and ?st0.0 = ex_state and pr = ex_part_label
      and row = ex_overflow_row and header = "''Label''" and cell = "''L1|L2|L3''"
      and index = ex_index and positions = ex_positions and i = 2 and st = ex_state
      and uri = "''http://r/1''" and c = ex_label_collab and repo = 0 and ?item0.0 = ex_item
      and index_string = "''part[0]=/part1;part[1]=/part2''" and pre = "[]" and post = "[]"
      and limit = None and n = 1 and rows = "[ex_row]",
      OF a1 a2 a3 a4 a5 a6 a7 a8 a9 a10 a11 ex_build_index a13 a14 a15]
  show ?thesis by simp
qed

subsection \<open>Cells that match the current values\<close>

lemma py_set_diff_same: "set xs = set ys \<Longrightarrow> py_set_diff xs ys = []"
  by (auto simp: py_set_diff_def filter_empty_conv)

lemma embedded_visit_matches:
  "position_matches positions inner (item st) iv \<Longrightarrow>
     embedded_visit positions inner pr iv st = Inr st"
  by (cases iv)
     (auto simp: embedded_visit_def position_matches_def Let_def split: option.splits list.splits)

lemma embedded_loop_matches:
  "list_all (position_matches positions inner (item st)) xs \<Longrightarrow>
     for_loop (embedded_visit positions inner pr) xs st = Inr st"
  by (induction xs) (auto simp: embedded_visit_matches)

lemma position_matches_cong:
  "heap it' = heap it \<Longrightarrow>
     position_matches positions inner it' iv = position_matches positions inner it iv"
  by (cases iv) (auto simp: position_matches_def split: option.splits list.splits)

lemma cell_matches_cong:
  assumes "attrs it' (snd ha) = attrs it (snd ha)" and "heap it' = heap it"
  shows "cell_matches row index it' ha = cell_matches row index it ha"
proof -
  obtain header path where ha: "ha = (header, path)" by (cases ha)
  have pm: "position_matches positions inner it' = position_matches positions inner it"
    for positions inner
    by (rule ext) (rule position_matches_cong [OF assms(2)])
  show ?thesis
  proof (cases "attrs it path")
    case None
    with assms(1) ha show ?thesis by (simp add: cell_matches_def)
  next
    case (Some pr)
    with assms(1) ha have "attrs it' path = Some pr" by simp
    with Some show ?thesis
      unfolding cell_matches_def ha
      by (simp add: pm cong: option.case_cong list.case_cong if_cong)
  qed
qed

lemma diff_property_matches:
  assumes "cell_matches row index (item st) (header, path)"
  shows "\<exists>st'. diff_property uri row index (header, path) st = Inr st' \<and>
           delete_graph st' = delete_graph st \<and> insert_graph st' = insert_graph st \<and>
           heap (item st') = heap (item st) \<and>
           (\<forall>q. q \<noteq> path \<longrightarrow> attrs (item st') q = attrs (item st) q)"
proof -
  from assms obtain pr cell where
    p: "attrs (item st) path = Some pr" and c: "row header = Some cell"
    by (auto simp: cell_matches_def split: option.splits)
  show ?thesis
  proof (cases "CHR ''.'' \<in> set path")
    case False
    with assms p c have "set (map str_of (prop_values pr)) = set (new_values_of cell)"
      by (simp add: cell_matches_def)
    then have "py_set_diff (map str_of (prop_values pr)) (new_values_of cell) = []"
      and "py_set_diff (new_values_of cell) (map str_of (prop_values pr)) = []"
      by (simp_all add: py_set_diff_same)
    with False p c show ?thesis
      by (simp add: diff_property_def diff_direct_def)
  next
    case True
    with assms p c obtain outer inner where
      s: "py_split_max CHR ''.'' 2 path = [outer, inner]"
      by (auto simp: cell_matches_def split: list.splits)
    show ?thesis
    proof (cases "index outer")
      case None
      with True p c s show ?thesis
        by (simp add: diff_property_def)
    next
      case (Some positions)
      with assms True p c s
      have "list_all (position_matches positions inner (item st))
          (List.enumerate 0 (new_values_of cell))"
        by (simp add: cell_matches_def)
      then have "for_loop (embedded_visit positions inner pr)
          (List.enumerate 0 (new_values_of cell)) st = Inr st"
        by (rule embedded_loop_matches)
      with True p c s Some show ?thesis
        by (simp add: diff_property_def)
    qed
  qed
qed

lemma diff_loop_matches:
  assumes "\<forall>ha \<in> set pa. cell_matches row index (item st) ha" and "distinct (map snd pa)"
  shows "\<exists>st'. for_loop (diff_property uri row index) pa st = Inr st' \<and>
           delete_graph st' = delete_graph st \<and> insert_graph st' = insert_graph st"
  using assms
proof (induction pa arbitrary: st)
  case Nil
  then show ?case by simp
next
  case (Cons ha pa)
  obtain header path where ha: "ha = (header, path)" by (cases ha)
  from Cons.prems(1) ha have "cell_matches row index (item st) (header, path)" by simp
  from diff_property_matches [OF this, of uri] obtain st1 where
    step: "diff_property uri row index (header, path) st = Inr st1"
    and g: "delete_graph st1 = delete_graph st" "insert_graph st1 = insert_graph st"
    and h: "heap (item st1) = heap (item st)"
    and a: "\<forall>q. q \<noteq> path \<longrightarrow> attrs (item st1) q = attrs (item st) q"
    by blast
  have "\<forall>ha' \<in> set pa. cell_matches row index (item st1) ha'"
  proof
    fix ha' assume m: "ha' \<in> set pa"
    with Cons.prems(2) ha have "snd ha' \<noteq> path" by auto
    with a have "attrs (item st1) (snd ha') = attrs (item st) (snd ha')" by simp
    from cell_matches_cong [OF this h] Cons.prems(1) m
    show "cell_matches row index (item st1) ha'" by simp
  qed
  moreover from Cons.prems(2) have "distinct (map snd pa)" by simp
  ultimately obtain st' where
    "for_loop (diff_property uri row index) pa st1 = Inr st'"
    "delete_graph st' = delete_graph st1" "insert_graph st' = insert_graph st1"
    using Cons.IH by blast
  with step g ha show ?case by simp
qed

lemma update_values:
  "set (map snd (AList.update k v al)) \<subseteq> insert v (set (map snd al))"
  by (induction al) auto

lemma update_distinct_values:
  "distinct (map snd al) \<Longrightarrow> v \<notin> set (map snd al) \<Longrightarrow> distinct (map snd (AList.update k v al))"
proof (induction al)
  case Nil
  then show ?case by simp
next
  case (Cons kv al)
  obtain k' v' where kv: "kv = (k', v')" by (cases kv)
  show ?case
  proof (cases "k' = k")
    case True
    with Cons.prems kv show ?thesis by auto
  next
    case False
    from Cons.prems kv have "v' \<notin> set (map snd al)" "v' \<noteq> v" by auto
    with update_values [of k v al] have "v' \<notin> set (map snd (AList.update k v al))"
      by auto
    with Cons False kv show ?thesis by simp
  qed
qed

lemma fold_update_distinct:
  "distinct (map fst hm) \<Longrightarrow> distinct (map snd acc) \<Longrightarrow> set (map fst hm) \<inter> set (map snd acc) = {} \<Longrightarrow>
     distinct (map snd (fold (\<lambda>(path, header). AList.update header path) hm acc)) \<and>
     set (map snd (fold (\<lambda>(path, header). AList.update header path) hm acc))
       \<subseteq> set (map fst hm) \<union> set (map snd acc)"
proof (induction hm arbitrary: acc)
  case Nil
  then show ?case by simp
next
  case (Cons ph hm)
  obtain path header where ph: "ph = (path, header)" by (cases ph)
  let ?acc = "AList.update header path acc"
  from Cons.prems ph have "path \<notin> set (map snd acc)" by auto
  with Cons.prems(2) have d: "distinct (map snd ?acc)"
    by (rule update_distinct_values)
  have s: "set (map snd ?acc) \<subseteq> insert path (set (map snd acc))"
    by (rule update_values)
  from Cons.prems ph have n: "path \<notin> set (map fst hm)" by simp
  from Cons.prems(3) have "set (map fst hm) \<inter> set (map snd acc) = {}" by auto
  with s n have i: "set (map fst hm) \<inter> set (map snd ?acc) = {}"
    by blast
  from Cons.prems(1) have "distinct (map fst hm)" by simp
  from Cons.IH [OF this d i]
  have r: "distinct (map snd (fold (\<lambda>(path, header). AList.update header path) hm ?acc))"
    and t: "set (map snd (fold (\<lambda>(path, header). AList.update header path) hm ?acc))
       \<subseteq> set (map fst hm) \<union> set (map snd ?acc)"
    by blast+
  from t s have "set (map snd (fold (\<lambda>(path, header). AList.update header path) hm ?acc))
       \<subseteq> insert path (set (map fst hm)) \<union> set (map snd acc)"
    by blast
  with r ph show ?case
    by simp
qed

lemma property_attrs_distinct:
  "distinct (map fst hm) \<Longrightarrow> distinct (map snd (property_attrs hm))"
  using fold_update_distinct [of hm "[]"] by (simp add: property_attrs_def)

lemma diff_row_matches:
  assumes "\<forall>ha \<in> set pa. cell_matches row index item0 ha" and "distinct (map snd pa)"
  shows "\<exists>ds. diff_row pa uri row index item0 = Inr ds \<and> delete_graph ds = [] \<and> insert_graph ds = []"
proof -
  let ?init = "\<lparr>item = item0, delete_graph = [], insert_graph = []\<rparr>"
  from assms have "\<forall>ha \<in> set pa. cell_matches row index (item ?init) ha" by simp
  from diff_loop_matches [OF this assms(2), of uri] obtain st where
    "for_loop (diff_property uri row index) pa ?init = Inr st"
    "delete_graph st = []" "insert_graph st = []"
    by auto
  then show ?thesis
    by (simp add: diff_row_def cancel_empty)
qed

text \<open>C8. For a row that is fetched, indexed and diffed: if both graphs are empty after the
  cancellation, the only call on the repository is the fetch and the row is counted as
  unchanged; if one of them is not empty, the update text of the two graphs is submitted once,
  after the fetch, and when the submission returns the row is counted as updated (when it
  raises, the exception leaves the loop). A row whose every cell matches the current values
  is counted as unchanged.\<close>

theorem row_outcome:
  assumes "row ''URI'' = Some uri" and "from_graph c repo uri = Inr item0"
    and "row ''INDEX'' = Some index_string"
    and "build_lookup_index item0 index_string = Inr index"
    and "diff_row (property_attrs (HEADER_MAP c)) uri row index item0 = Inr ds"
  shows "(delete_graph ds = [] \<and> insert_graph ds = [] \<longrightarrow>
            row_body c row (cnt, repo) =
              ([GetGraph uri],
               Inr (cnt\<lparr>row_count := row_count cnt + 1,
                        unchanged_count := unchanged_count cnt + 1\<rparr>, repo))) \<and>
         (delete_graph ds \<noteq> [] \<or> insert_graph ds \<noteq> [] \<longrightarrow>
            (\<forall>repo'. patch c repo (item ds)
                  (build_sparql_update (serialize_nt c) (delete_graph ds) (insert_graph ds))
                  = Inr repo' \<longrightarrow>
               row_body c row (cnt, repo) =
                 ([GetGraph uri,
                   Patch uri (build_sparql_update (serialize_nt c) (delete_graph ds)
                     (insert_graph ds))],
                  Inr (cnt\<lparr>row_count := row_count cnt + 1,
                           updated_count := updated_count cnt + 1\<rparr>, repo'))) \<and>
            (\<forall>e. patch c repo (item ds)
                  (build_sparql_update (serialize_nt c) (delete_graph ds) (insert_graph ds))
                  = Inl e \<longrightarrow>
               row_body c row (cnt, repo) =
                 ([GetGraph uri,
                   Patch uri (build_sparql_update (serialize_nt c) (delete_graph ds)
                     (insert_graph ds))],
                  Inl e))) \<and>
         (distinct (map fst (HEADER_MAP c)) \<and>
          (\<forall>ha \<in> set (property_attrs (HEADER_MAP c)). cell_matches row index item0 ha) \<longrightarrow>
            row_body c row (cnt, repo) =
              ([GetGraph uri],
               Inr (cnt\<lparr>row_count := row_count cnt + 1,
                        unchanged_count := unchanged_count cnt + 1\<rparr>, repo)))"
proof -
  have unchanged: "row_body c row (cnt, repo) =
      ([GetGraph uri],
       Inr (cnt\<lparr>row_count := row_count cnt + 1, unchanged_count := unchanged_count cnt + 1\<rparr>, repo))"
    if "delete_graph ds = []" and "insert_graph ds = []"
    using assms that by (simp add: row_body_def)
  have updated: "row_body c row (cnt, repo) =
      ([GetGraph uri,
        Patch uri (build_sparql_update (serialize_nt c) (delete_graph ds) (insert_graph ds))],
       Inr (cnt\<lparr>row_count := row_count cnt + 1, updated_count := updated_count cnt + 1\<rparr>, repo'))"
    if "delete_graph ds \<noteq> [] \<or> insert_graph ds \<noteq> []"
      and "patch c repo (item ds)
        (build_sparql_update (serialize_nt c) (delete_graph ds) (insert_graph ds)) = Inr repo'"
    for repo'
    using assms that by (auto simp: row_body_def Let_def)
  have failed: "row_body c row (cnt, repo) =
      ([GetGraph uri,
        Patch uri (build_sparql_update (serialize_nt c) (delete_graph ds) (insert_graph ds))],
       Inl e)"
    if "delete_graph ds \<noteq> [] \<or> insert_graph ds \<noteq> []"
      and "patch c repo (item ds)
        (build_sparql_update (serialize_nt c) (delete_graph ds) (insert_graph ds)) = Inl e"
    for e
    using assms that by (auto simp: row_body_def Let_def)
  have matching: "delete_graph ds = [] \<and> insert_graph ds = []"
    if "distinct (map fst (HEADER_MAP c))"
      and "\<forall>ha \<in> set (property_attrs (HEADER_MAP c)). cell_matches row index item0 ha"
  proof -
    from that(1) have "distinct (map snd (property_attrs (HEADER_MAP c)))"
      by (rule property_attrs_distinct)
    from diff_row_matches [OF that(2) this, of uri] assms(5) show ?thesis
      by auto
  qed
  from unchanged updated failed matching show ?thesis
    by blast
qed

text \<open>On the example: the row that matches is counted as unchanged after the fetch alone; the
  row with a new title and a new label is patched once and counted as updated.\<close>

theorem row_outcome_witness:
  "row_body ex_collab ex_match_row
      (\<lparr>row_count = 0, updated_count = 0, unchanged_count = 0\<rparr>, 0) =
     ([GetGraph ''http://r/1''],
      Inr (\<lparr>row_count = 1, updated_count = 0, unchanged_count = 1\<rparr>, 0)) \<and>
   (\<exists>q. row_body ex_collab ex_row
           (\<lparr>row_count = 0, updated_count = 0, unchanged_count = 0\<rparr>, 0) =
         ([GetGraph ''http://r/1'', Patch ''http://r/1'' q],
          Inr (\<lparr>row_count = 1, updated_count = 1, unchanged_count = 0\<rparr>, 1)))"
proof -
  let ?pa = "property_attrs (HEADER_MAP ex_collab)"
  let ?u = "''http://r/1''"
  let ?z = "\<lparr>row_count = 0, updated_count = 0, unchanged_count = 0\<rparr>"
  have f: "from_graph ex_collab 0 ?u = Inr ex_item" by (simp add: ex_collab_def)
  have d: "distinct (map fst (HEADER_MAP ex_collab))" by (simp add: ex_collab_def)
  have "list_all (cell_matches ex_match_row ex_index ex_item) ?pa" by code_simp
  then have m: "\<forall>ha \<in> set ?pa. cell_matches ex_match_row ex_index ex_item ha"
    by (simp add: list_all_iff)
  have "graphs_of (diff_row ?pa ?u ex_match_row ex_index ex_item) = Inr ([], [])"
    by code_simp
  from graphs_of_Inr [OF this] obtain ds where
    r: "diff_row ?pa ?u ex_match_row ex_index ex_item = Inr ds"
    by blast
  have u1: "ex_match_row ''URI'' = Some ?u" by (simp add: ex_match_row_def)
  have i1: "ex_match_row ''INDEX'' = Some ''part[0]=/part1;part[1]=/part2''"
    by (simp add: ex_match_row_def)
  from row_outcome [where c = ex_collab and row = ex_match_row and cnt = ?z and repo = 0,
      OF u1 f i1 ex_build_index r] d m
  have first: "row_body ex_collab ex_match_row (?z, 0) =
     ([GetGraph ?u], Inr (\<lparr>row_count = 1, updated_count = 0, unchanged_count = 1\<rparr>, 0))"
    by simp
  have "graphs_of (diff_row ?pa ?u ex_row ex_index ex_item) =
      Inr ([(''http://r/1/part2'', ''rdfs:label'', RDFLiteral ''L2'')],
           [(''http://r/1'', ''dcterms:title'', RDFLiteral ''B''),
            (''http://r/1/part2'', ''rdfs:label'', RDFLiteral ''X2'')])"
    by code_simp
  from graphs_of_Inr [OF this] obtain ds' where
    r': "diff_row ?pa ?u ex_row ex_index ex_item = Inr ds'"
    and g: "delete_graph ds' = [(''http://r/1/part2'', ''rdfs:label'', RDFLiteral ''L2'')]"
    by blast
  have u2: "ex_row ''URI'' = Some ?u" by (simp add: ex_row_def)
  have i2: "ex_row ''INDEX'' = Some ''part[0]=/part1;part[1]=/part2''"
    by (simp add: ex_row_def)
  have p: "patch ex_collab 0 (item ds') q = Inr 1" for q
    by (simp add: ex_collab_def)
  from row_outcome [where c = ex_collab and row = ex_row and cnt = ?z and repo = 0,
      OF u2 f i2 ex_build_index r'] g p
  have "\<exists>q. row_body ex_collab ex_row (?z, 0) =
         ([GetGraph ?u, Patch ?u q],
          Inr (\<lparr>row_count = 1, updated_count = 1, unchanged_count = 0\<rparr>, 1))"
    by simp
  with first show ?thesis by blast
qed

subsection \<open>What the diff of a row leaves in memory\<close>

lemma py_split_max_nonempty: "py_split_max sep n s \<noteq> []"
  by (induction sep n s rule: py_split_max.induct) (auto split: list.splits)

lemma py_split_max_single: "py_split_max sep n s = [b] \<Longrightarrow> s = b"
proof (induction sep n s arbitrary: b rule: py_split_max.induct)
  case (1 sep n)
  then show ?case by simp
next
  case (2 sep c cs)
  then show ?case by simp
next
  case (3 sep n c cs)
  show ?case
  proof (cases "c = sep")
    case True
    with "3.prems" show ?thesis by (simp add: py_split_max_nonempty)
  next
    case False
    with "3.prems" obtain p where "py_split_max sep (Suc n) cs = [p]" and "b = c # p"
      by (auto simp: py_split_max_nonempty split: list.splits)
    with "3.IH"(2) [OF False] show ?thesis by simp
  qed
qed

lemma py_split_max_two: "py_split_max sep n s = [a, b] \<Longrightarrow> s = a @ sep # b"
proof (induction sep n s arbitrary: a rule: py_split_max.induct)
  case (1 sep n)
  then show ?case by simp
next
  case (2 sep c cs)
  then show ?case by simp
next
  case (3 sep n c cs)
  show ?case
  proof (cases "c = sep")
    case True
    with "3.prems" have "a = []" and "py_split_max sep n cs = [b]" by simp_all
    with True py_split_max_single [of sep n cs b] show ?thesis by simp
  next
    case False
    with "3.prems" obtain p where "py_split_max sep (Suc n) cs = [p, b]" and "a = c # p"
      by (auto simp: py_split_max_nonempty split: list.splits)
    with "3.IH"(2) [OF False] show ?thesis by simp
  qed
qed

lemma embedded_visit_frame:
  assumes "embedded_visit positions inner pr (i, v) st = Inr st'"
  shows "attrs (item st') = attrs (item st)"
    and "name \<noteq> inner \<or> positions i \<noteq> Some b \<Longrightarrow>
           obj_props (heap (item st') b) name = obj_props (heap (item st) b) name"
  using assms
  by (auto simp: embedded_visit_def Let_def setattr_def
      split: option.splits list.splits if_splits)

lemma embedded_loop_frame:
  assumes "for_loop (embedded_visit positions inner pr) xs st = Inr st'"
  shows "attrs (item st') = attrs (item st) \<and>
         (name \<noteq> inner \<or> (\<forall>iv \<in> set xs. positions (fst iv) \<noteq> Some b) \<longrightarrow>
            obj_props (heap (item st') b) name = obj_props (heap (item st) b) name)"
  using assms
proof (induction xs arbitrary: st)
  case Nil
  then show ?case by simp
next
  case (Cons iv xs)
  obtain i v where iv: "iv = (i, v)" by (cases iv)
  from Cons.prems iv obtain st1 where
    v1: "embedded_visit positions inner pr (i, v) st = Inr st1"
    and l: "for_loop (embedded_visit positions inner pr) xs st1 = Inr st'"
    by (auto split: sum.splits)
  note f = embedded_visit_frame [OF v1]
  from Cons.IH [OF l] f(1) have a: "attrs (item st') = attrs (item st)" by simp
  have "obj_props (heap (item st') b) name = obj_props (heap (item st) b) name"
    if c: "name \<noteq> inner \<or> (\<forall>iv \<in> set (iv # xs). positions (fst iv) \<noteq> Some b)"
  proof -
    from c iv have "name \<noteq> inner \<or> positions i \<noteq> Some b" by auto
    then have "obj_props (heap (item st1) b) name = obj_props (heap (item st) b) name"
      by (rule f(2))
    moreover from c have "name \<noteq> inner \<or> (\<forall>iv \<in> set xs. positions (fst iv) \<noteq> Some b)"
      by auto
    with Cons.IH [OF l]
    have "obj_props (heap (item st') b) name = obj_props (heap (item st1) b) name"
      by blast
    ultimately show ?thesis by simp
  qed
  with a show ?case by blast
qed

lemma embedded_visit_post:
  "embedded_visit positions inner pr (i, v) st = Inr st' \<Longrightarrow>
     position_matches positions inner (item st') (i, v)"
  by (auto simp: embedded_visit_def position_matches_def Let_def setattr_def
      split: option.splits list.splits if_splits)

lemma position_matches_cells:
  assumes "\<And>a. positions (fst iv) = Some a \<Longrightarrow>
             obj_props (heap it' a) inner = obj_props (heap it a) inner"
  shows "position_matches positions inner it' iv = position_matches positions inner it iv"
proof (cases iv)
  case (Pair i v)
  show ?thesis
  proof (cases "positions i")
    case None
    with Pair show ?thesis by (simp add: position_matches_def)
  next
    case (Some a)
    with assms [of a] Pair have "obj_props (heap it' a) inner = obj_props (heap it a) inner"
      by simp
    with Pair Some show ?thesis by (simp add: position_matches_def)
  qed
qed

lemma enumerate_fst_ge: "iv \<in> set (List.enumerate k vs) \<Longrightarrow> k \<le> fst iv"
  by (auto simp: in_set_enumerate_eq)

lemma embedded_loop_reconciles:
  assumes "for_loop (embedded_visit positions inner pr) (List.enumerate k vs) st = Inr st'"
    and inj: "\<And>i j a. positions i = Some a \<Longrightarrow> positions j = Some a \<Longrightarrow> i = j"
  shows "list_all (position_matches positions inner (item st')) (List.enumerate k vs)"
  using assms(1)
proof (induction vs arbitrary: k st)
  case Nil
  then show ?case by simp
next
  case (Cons v vs)
  from Cons.prems obtain st1 where
    v1: "embedded_visit positions inner pr (k, v) st = Inr st1"
    and l: "for_loop (embedded_visit positions inner pr) (List.enumerate (Suc k) vs) st1 = Inr st'"
    by (auto split: sum.splits)
  from embedded_visit_post [OF v1]
  have m1: "position_matches positions inner (item st1) (k, v)" .
  have "position_matches positions inner (item st') (k, v) =
      position_matches positions inner (item st1) (k, v)"
  proof (rule position_matches_cells)
    fix a assume "positions (fst (k, v)) = Some a"
    then have pk: "positions k = Some a" by simp
    have "\<forall>iv \<in> set (List.enumerate (Suc k) vs). positions (fst iv) \<noteq> Some a"
    proof
      fix iv assume "iv \<in> set (List.enumerate (Suc k) vs)"
      then have "Suc k \<le> fst iv" by (rule enumerate_fst_ge)
      then have "fst iv \<noteq> k" by simp
      with inj [OF _ pk] show "positions (fst iv) \<noteq> Some a" by blast
    qed
    with embedded_loop_frame [OF l, of inner a]
    show "obj_props (heap (item st') a) inner = obj_props (heap (item st1) a) inner"
      by blast
  qed
  with m1 have "position_matches positions inner (item st') (k, v)" by simp
  with Cons.IH [OF l] show ?case by simp
qed

lemma diff_property_frame:
  assumes "diff_property uri row index (header', path') st = Inr st'"
  shows "q \<noteq> path' \<Longrightarrow> attrs (item st') q = attrs (item st) q"
    and "CHR ''.'' \<notin> set path' \<Longrightarrow> heap (item st') = heap (item st)"
    and "CHR ''.'' \<in> set path' \<Longrightarrow>
           \<exists>outer' inner'. py_split_max CHR ''.'' 2 path' = [outer', inner'] \<and>
             attrs (item st') = attrs (item st) \<and>
             (\<forall>b name. name \<noteq> inner' \<or>
                  (\<forall>positions' i. index outer' = Some positions' \<longrightarrow> positions' i \<noteq> Some b) \<longrightarrow>
                obj_props (heap (item st') b) name = obj_props (heap (item st) b) name)"
proof -
  from assms obtain pr cell where
    p: "attrs (item st) path' = Some pr" and c: "row header' = Some cell"
    by (auto simp: diff_property_def split: option.splits)
  show "attrs (item st') q = attrs (item st) q" if "q \<noteq> path'"
  proof (cases "CHR ''.'' \<in> set path'")
    case False
    with assms p c have "st' = diff_direct uri path' pr (map str_of (prop_values pr))
        (new_values_of cell) st"
      by (simp add: diff_property_def)
    with that show ?thesis by (simp add: diff_direct_def)
  next
    case True
    with assms p c obtain outer' inner' where
      s: "py_split_max CHR ''.'' 2 path' = [outer', inner']"
      by (auto simp: diff_property_def split: list.splits)
    show ?thesis
    proof (cases "index outer'")
      case None
      with assms p c True s show ?thesis by (simp add: diff_property_def)
    next
      case (Some positions')
      with assms p c True s
      have "for_loop (embedded_visit positions' inner' pr)
          (List.enumerate 0 (new_values_of cell)) st = Inr st'"
        by (simp add: diff_property_def)
      from embedded_loop_frame [OF this] show ?thesis by simp
    qed
  qed
  show "heap (item st') = heap (item st)" if "CHR ''.'' \<notin> set path'"
  proof -
    from that assms p c have "st' = diff_direct uri path' pr (map str_of (prop_values pr))
        (new_values_of cell) st"
      by (simp add: diff_property_def)
    then show ?thesis by (simp add: diff_direct_def)
  qed
  show "\<exists>outer' inner'. py_split_max CHR ''.'' 2 path' = [outer', inner'] \<and>
      attrs (item st') = attrs (item st) \<and>
      (\<forall>b name. name \<noteq> inner' \<or>
           (\<forall>positions' i. index outer' = Some positions' \<longrightarrow> positions' i \<noteq> Some b) \<longrightarrow>
         obj_props (heap (item st') b) name = obj_props (heap (item st) b) name)"
    if t: "CHR ''.'' \<in> set path'"
  proof -
    from t assms p c obtain outer' inner' where
      s: "py_split_max CHR ''.'' 2 path' = [outer', inner']"
      by (auto simp: diff_property_def split: list.splits)
    have "attrs (item st') = attrs (item st) \<and>
      (\<forall>b name. name \<noteq> inner' \<or>
           (\<forall>positions' i. index outer' = Some positions' \<longrightarrow> positions' i \<noteq> Some b) \<longrightarrow>
         obj_props (heap (item st') b) name = obj_props (heap (item st) b) name)"
    proof (cases "index outer'")
      case None
      with assms p c t s have "st' = st" by (simp add: diff_property_def)
      then show ?thesis by simp
    next
      case (Some positions')
      with assms p c t s
      have l: "for_loop (embedded_visit positions' inner' pr)
          (List.enumerate 0 (new_values_of cell)) st = Inr st'"
        by (simp add: diff_property_def)
      have "obj_props (heap (item st') b) name = obj_props (heap (item st) b) name"
        if "name \<noteq> inner' \<or>
           (\<forall>positions' i. index outer' = Some positions' \<longrightarrow> positions' i \<noteq> Some b)"
        for b name
      proof -
        from that Some have "name \<noteq> inner' \<or>
            (\<forall>iv \<in> set (List.enumerate 0 (new_values_of cell)). positions' (fst iv) \<noteq> Some b)"
          by blast
        with embedded_loop_frame [OF l, of name b] show ?thesis by blast
      qed
      with embedded_loop_frame [OF l] show ?thesis by blast
    qed
    with s show ?thesis by blast
  qed
qed

lemma cell_matches_cells:
  assumes a: "attrs it' path = attrs it path"
    and h: "\<And>outer inner positions i a.
       py_split_max CHR ''.'' 2 path = [outer, inner] \<Longrightarrow> index outer = Some positions \<Longrightarrow>
       positions i = Some a \<Longrightarrow> obj_props (heap it' a) inner = obj_props (heap it a) inner"
  shows "cell_matches row index it' (header, path) = cell_matches row index it (header, path)"
proof (cases "attrs it path")
  case None
  with a show ?thesis by (simp add: cell_matches_def)
next
  case (Some pr)
  note pr = Some
  with a have pr': "attrs it' path = Some pr" by simp
  show ?thesis
  proof (cases "row header")
    case None
    with pr pr' show ?thesis by (simp add: cell_matches_def)
  next
    case (Some cell)
    note cell = Some
    show ?thesis
    proof (cases "CHR ''.'' \<in> set path")
      case False
      with pr pr' cell show ?thesis by (simp add: cell_matches_def)
    next
      case True
      show ?thesis
      proof (cases "\<exists>outer inner. py_split_max CHR ''.'' 2 path = [outer, inner]")
        case False
        then have "\<And>outer inner. py_split_max CHR ''.'' 2 path \<noteq> [outer, inner]" by blast
        with pr pr' cell True show ?thesis
          by (auto simp: cell_matches_def split: list.splits)
      next
        case True
        then obtain outer inner where s: "py_split_max CHR ''.'' 2 path = [outer, inner]"
          by blast
        show ?thesis
        proof (cases "index outer")
          case None
          with pr pr' cell s show ?thesis by (simp add: cell_matches_def)
        next
          case (Some positions)
          have "position_matches positions inner it' = position_matches positions inner it"
          proof (rule ext, rule position_matches_cells)
            fix iv :: "nat \<times> string" and a
            assume "positions (fst iv) = Some a"
            with h [OF s Some]
            show "obj_props (heap it' a) inner = obj_props (heap it a) inner" by blast
          qed
          with pr pr' cell s Some show ?thesis by (simp add: cell_matches_def)
        qed
      qed
    qed
  qed
qed

lemma step_establishes:
  assumes "diff_property uri row index (header, path) st = Inr st'" and "slots_distinct index"
  shows "cell_matches row index (item st') (header, path)"
proof -
  from assms(1) obtain pr cell where
    p: "attrs (item st) path = Some pr" and c: "row header = Some cell"
    by (auto simp: diff_property_def split: option.splits)
  show ?thesis
  proof (cases "CHR ''.'' \<in> set path")
    case False
    with assms(1) p c have "st' = diff_direct uri path pr (map str_of (prop_values pr))
        (new_values_of cell) st"
      by (simp add: diff_property_def)
    with False c show ?thesis
      by (simp add: cell_matches_def diff_direct_def comp_def)
  next
    case True
    with assms(1) p c obtain outer inner where
      s: "py_split_max CHR ''.'' 2 path = [outer, inner]"
      by (auto simp: diff_property_def split: list.splits)
    from diff_property_frame(3) [OF assms(1) True] have "attrs (item st') = attrs (item st)"
      by blast
    with p have p': "attrs (item st') path = Some pr" by simp
    show ?thesis
    proof (cases "index outer")
      case None
      with p' c True s show ?thesis by (simp add: cell_matches_def)
    next
      case (Some positions)
      with assms(1) p c True s
      have l: "for_loop (embedded_visit positions inner pr)
          (List.enumerate 0 (new_values_of cell)) st = Inr st'"
        by (simp add: diff_property_def)
      have "i = j" if "positions i = Some a" and "positions j = Some a" for i j a
        using assms(2) Some that unfolding slots_distinct_def by blast
      with l have "list_all (position_matches positions inner (item st'))
          (List.enumerate 0 (new_values_of cell))"
        by (rule embedded_loop_reconciles)
      with p' c True s Some show ?thesis by (simp add: cell_matches_def)
    qed
  qed
qed

lemma step_preserves:
  assumes step: "diff_property uri row index (header', path') st = Inr st'"
    and ne: "path' \<noteq> path" and sd: "slots_distinct index"
  shows "cell_matches row index (item st') (header, path) =
         cell_matches row index (item st) (header, path)"
proof (rule cell_matches_cells)
  from diff_property_frame(1) [OF step] ne
  show "attrs (item st') path = attrs (item st) path" by simp
next
  fix outer inner positions i a
  assume s: "py_split_max CHR ''.'' 2 path = [outer, inner]"
    and ix: "index outer = Some positions" and pi: "positions i = Some a"
  show "obj_props (heap (item st') a) inner = obj_props (heap (item st) a) inner"
  proof (cases "CHR ''.'' \<in> set path'")
    case False
    with diff_property_frame(2) [OF step] show ?thesis by simp
  next
    case True
    from diff_property_frame(3) [OF step True] obtain outer' inner' where
      s': "py_split_max CHR ''.'' 2 path' = [outer', inner']"
      and f: "\<And>b name. name \<noteq> inner' \<or>
                  (\<forall>positions' i. index outer' = Some positions' \<longrightarrow> positions' i \<noteq> Some b) \<Longrightarrow>
                obj_props (heap (item st') b) name = obj_props (heap (item st) b) name"
      by blast
    show ?thesis
    proof (cases "inner = inner'")
      case False
      then show ?thesis by (simp add: f)
    next
      case True
      from py_split_max_two [OF s] py_split_max_two [OF s'] ne True
      have "outer \<noteq> outer'" by auto
      with sd ix pi
      have "\<forall>positions' j. index outer' = Some positions' \<longrightarrow> positions' j \<noteq> Some a"
        unfolding slots_distinct_def by blast
      then show ?thesis by (simp add: f)
    qed
  qed
qed

lemma diff_loop_preserves:
  assumes "for_loop (diff_property uri row index) pa st = Inr st'"
    and "path \<notin> snd ` set pa" and "slots_distinct index"
  shows "cell_matches row index (item st') (header, path) =
         cell_matches row index (item st) (header, path)"
  using assms(1,2)
proof (induction pa arbitrary: st)
  case Nil
  then show ?case by simp
next
  case (Cons ha pa)
  obtain header' path' where ha: "ha = (header', path')" by (cases ha)
  from Cons.prems(1) ha obtain st1 where
    step: "diff_property uri row index (header', path') st = Inr st1"
    and l: "for_loop (diff_property uri row index) pa st1 = Inr st'"
    by (auto split: sum.splits)
  from Cons.prems(2) ha have ne: "path' \<noteq> path" and "path \<notin> snd ` set pa" by auto
  from Cons.IH [OF l this(2)] step_preserves [OF step ne assms(3)]
  show ?case by simp
qed

lemma diff_loop_reconciles:
  assumes "for_loop (diff_property uri row index) pa st = Inr st'"
    and "distinct (map snd pa)" and "slots_distinct index"
  shows "\<forall>ha \<in> set pa. cell_matches row index (item st') ha"
  using assms(1,2)
proof (induction pa arbitrary: st)
  case Nil
  then show ?case by simp
next
  case (Cons ha pa)
  obtain header path where ha: "ha = (header, path)" by (cases ha)
  from Cons.prems(1) ha obtain st1 where
    step: "diff_property uri row index (header, path) st = Inr st1"
    and l: "for_loop (diff_property uri row index) pa st1 = Inr st'"
    by (auto split: sum.splits)
  from Cons.prems(2) ha have n: "path \<notin> snd ` set pa" and d: "distinct (map snd pa)"
    by auto
  from step_establishes [OF step assms(3)] diff_loop_preserves [OF l n assms(3)]
  have "cell_matches row index (item st') (header, path)" by simp
  with Cons.IH [OF l d] ha show ?case by simp
qed

lemma diff_loop_attrs:
  assumes "for_loop (diff_property uri row index) pa st = Inr st'" and "q \<notin> snd ` set pa"
  shows "attrs (item st') q = attrs (item st) q"
  using assms
proof (induction pa arbitrary: st)
  case Nil
  then show ?case by simp
next
  case (Cons ha pa)
  obtain header' path' where ha: "ha = (header', path')" by (cases ha)
  from Cons.prems(1) ha obtain st1 where
    step: "diff_property uri row index (header', path') st = Inr st1"
    and l: "for_loop (diff_property uri row index) pa st1 = Inr st'"
    by (auto split: sum.splits)
  from Cons.prems(2) ha have ne: "q \<noteq> path'" and "q \<notin> snd ` set pa" by auto
  from Cons.IH [OF l this(2)] diff_property_frame(1) [OF step ne]
  show ?case by simp
qed

lemma diff_loop_direct:
  assumes "for_loop (diff_property uri row index) pa st = Inr st'"
    and "distinct (map snd pa)" and "(header, path) \<in> set pa" and "CHR ''.'' \<notin> set path"
  shows "\<exists>pr cell. row header = Some cell \<and> attrs (item st') path = Some pr \<and>
           prop_values pr = map PStr (new_values_of cell)"
  using assms(1,2,3)
proof (induction pa arbitrary: st)
  case Nil
  then show ?case by simp
next
  case (Cons ha pa)
  obtain header' path' where ha: "ha = (header', path')" by (cases ha)
  from Cons.prems(1) ha obtain st1 where
    step: "diff_property uri row index (header', path') st = Inr st1"
    and l: "for_loop (diff_property uri row index) pa st1 = Inr st'"
    by (auto split: sum.splits)
  from Cons.prems(2) ha have n: "path' \<notin> snd ` set pa" and d: "distinct (map snd pa)"
    by auto
  show ?case
  proof (cases "(header, path) \<in> set pa")
    case True
    from Cons.IH [OF l d True] show ?thesis .
  next
    case False
    with Cons.prems(3) ha have e: "header' = header" "path' = path" by auto
    from step e obtain pr cell where
      p: "attrs (item st) path = Some pr" and c: "row header = Some cell"
      by (auto simp: diff_property_def split: option.splits)
    with step e assms(4) have "st1 = diff_direct uri path pr (map str_of (prop_values pr))
        (new_values_of cell) st"
      by (simp add: diff_property_def)
    then have "attrs (item st1) path = Some (pr\<lparr>prop_values := map PStr (new_values_of cell)\<rparr>)"
      by (simp add: diff_direct_def)
    moreover from diff_loop_attrs [OF l] n e
    have "attrs (item st') path = attrs (item st1) path" by simp
    ultimately show ?thesis using c by simp
  qed
qed

lemma diff_row_loop:
  assumes "diff_row pa uri row index item0 = Inr ds"
  shows "\<exists>st. for_loop (diff_property uri row index) pa
                \<lparr>item = item0, delete_graph = [], insert_graph = []\<rparr> = Inr st \<and>
              item ds = item st"
proof -
  from assms obtain st where
    run: "for_loop (diff_property uri row index) pa
            \<lparr>item = item0, delete_graph = [], insert_graph = []\<rparr> = Inr st"
    by (auto simp: diff_row_def split: sum.splits)
  obtain d i where "cancel (delete_graph st) (insert_graph st) = (d, i)"
    by (cases "cancel (delete_graph st) (insert_graph st)")
  with assms run have "ds = st\<lparr>delete_graph := d, insert_graph := i\<rparr>"
    by (simp add: diff_row_def)
  with run show ?thesis by simp
qed

lemma written_Cons: "written (ha # pa) row index b name =
    (written [ha] row index b name \<or> written pa row index b name)"
  by (simp add: written_def)

lemma diff_property_unwritten:
  assumes "diff_property uri row index (header', path') st = Inr st'"
    and "\<not> written [(header', path')] row index b name"
  shows "obj_props (heap (item st') b) name = obj_props (heap (item st) b) name"
proof -
  from assms(1) obtain pr cell where
    p: "attrs (item st) path' = Some pr" and c: "row header' = Some cell"
    by (auto simp: diff_property_def split: option.splits)
  show ?thesis
  proof (cases "CHR ''.'' \<in> set path'")
    case False
    from diff_property_frame(2) [OF assms(1) False] show ?thesis by simp
  next
    case True
    with assms(1) p c obtain outer' inner' where
      s: "py_split_max CHR ''.'' 2 path' = [outer', inner']"
      by (auto simp: diff_property_def split: list.splits)
    show ?thesis
    proof (cases "index outer'")
      case None
      with assms(1) p c True s have "st' = st" by (simp add: diff_property_def)
      then show ?thesis by simp
    next
      case (Some positions')
      with assms(1) p c True s
      have l: "for_loop (embedded_visit positions' inner' pr)
          (List.enumerate 0 (new_values_of cell)) st = Inr st'"
        by (simp add: diff_property_def)
      from assms(2) True s Some c
      have "name \<noteq> inner' \<or>
          (\<forall>iv \<in> set (List.enumerate 0 (new_values_of cell)). positions' (fst iv) \<noteq> Some b)"
        by (auto simp: written_def list_ex_iff)
      with embedded_loop_frame [OF l, of name b] show ?thesis by blast
    qed
  qed
qed

lemma diff_loop_unwritten:
  assumes "for_loop (diff_property uri row index) pa st = Inr st'"
    and "\<not> written pa row index b name"
  shows "obj_props (heap (item st') b) name = obj_props (heap (item st) b) name"
  using assms
proof (induction pa arbitrary: st)
  case Nil
  then show ?case by simp
next
  case (Cons ha pa)
  obtain header' path' where ha: "ha = (header', path')" by (cases ha)
  from Cons.prems(1) ha obtain st1 where
    step: "diff_property uri row index (header', path') st = Inr st1"
    and l: "for_loop (diff_property uri row index) pa st1 = Inr st'"
    by (auto split: sum.splits)
  from Cons.prems(2) ha have w1: "\<not> written [(header', path')] row index b name"
    and w2: "\<not> written pa row index b name"
    using written_Cons [of ha pa row index b name] by simp_all
  from diff_property_unwritten [OF step w1] Cons.IH [OF l w2]
  show ?case by simp
qed

lemma diff_loop_attrs_embedded:
  assumes "for_loop (diff_property uri row index) pa st = Inr st'" and "CHR ''.'' \<in> set q"
  shows "attrs (item st') q = attrs (item st) q"
  using assms(1)
proof (induction pa arbitrary: st)
  case Nil
  then show ?case by simp
next
  case (Cons ha pa)
  obtain header' path' where ha: "ha = (header', path')" by (cases ha)
  from Cons.prems(1) ha obtain st1 where
    step: "diff_property uri row index (header', path') st = Inr st1"
    and l: "for_loop (diff_property uri row index) pa st1 = Inr st'"
    by (auto split: sum.splits)
  have "attrs (item st1) q = attrs (item st) q"
  proof (cases "CHR ''.'' \<in> set path'")
    case True
    from diff_property_frame(3) [OF step True] show ?thesis by auto
  next
    case False
    with assms(2) have "q \<noteq> path'" by auto
    then show ?thesis by (rule diff_property_frame(1) [OF step])
  qed
  with Cons.IH [OF l] show ?case by simp
qed

lemma distinct_snd_header:
  assumes "distinct (map snd pa)" and "(h, p) \<in> set pa" and "(h', p) \<in> set pa"
  shows "h' = h"
proof -
  from assms(1) have "inj_on snd (set pa)" by (simp add: distinct_map)
  from inj_onD [OF this _ assms(3,2)] show ?thesis by simp
qed

lemma past_unwritten:
  assumes d: "distinct (map snd pa)" and m: "(header, path) \<in> set pa"
    and sd: "slots_distinct index"
    and s: "py_split_max CHR ''.'' 2 path = [outer, inner]"
    and ix: "index outer = Some positions" and c: "row header = Some cell"
    and j: "length (new_values_of cell) \<le> j" and pj: "positions j = Some b"
  shows "\<not> written pa row index b inner"
proof
  assume "written pa row index b inner"
  then obtain header' path' where m': "(header', path') \<in> set pa"
    and w: "written [(header', path')] row index b inner"
    by (auto simp: written_def list_ex_iff)
  from w obtain outer' positions' cell' iv where
    s': "py_split_max CHR ''.'' 2 path' = [outer', inner]"
    and ix': "index outer' = Some positions'" and c': "row header' = Some cell'"
    and iv: "iv \<in> set (List.enumerate 0 (new_values_of cell'))"
    and p': "positions' (fst iv) = Some b"
    by (auto simp: written_def list_ex_iff split: list.splits option.splits)
  from sd ix pj ix' p' have "outer = outer'" and e: "j = fst iv"
    unfolding slots_distinct_def by blast+
  with py_split_max_two [OF s] py_split_max_two [OF s'] have "path' = path" by simp
  with m' have "(header', path) \<in> set pa" by simp
  from distinct_snd_header [OF d m this] c c' have "cell' = cell" by simp
  with iv have "fst iv < length (new_values_of cell)"
    by (auto simp: in_set_enumerate_eq)
  with e j show False by simp
qed

lemma ex_slots_distinct: "slots_distinct ex_index"
  by (auto simp: slots_distinct_def ex_index_def ex_positions_def split: if_splits)

text \<open>C4, as the claim states it, fails for a mapped property in embedded mode: with one
  label in the cell for two indexed parts, the row is processed, the second part keeps its
  label, and the values in memory (those of the property, and those of the parts) are
  \<open>L1\<close> and \<open>L2\<close>, not the one value \<open>L1\<close> of the cell.\<close>

theorem values_after_row_counterexample:
  "values_of (diff_row (property_attrs (HEADER_MAP ex_collab)) ''http://r/1'' ex_short_row
       ex_index ex_item) ''part.label'' = Inr (Some [''L1'', ''L2'']) \<and>
   inner_values_of (diff_row (property_attrs (HEADER_MAP ex_collab)) ''http://r/1'' ex_short_row
       ex_index ex_item) ''label'' [1, 2] = Inr [Some [''L1''], Some [''L2'']] \<and>
   ex_short_row ''Label'' = Some ''L1'' \<and>
   new_values_of ''L1'' = [''L1''] \<and>
   set [''L1'', ''L2''] \<noteq> set (new_values_of ''L1'')"
proof -
  have "values_of (diff_row (property_attrs (HEADER_MAP ex_collab)) ''http://r/1'' ex_short_row
       ex_index ex_item) ''part.label'' = Inr (Some [''L1'', ''L2''])"
    by code_simp
  moreover have "inner_values_of (diff_row (property_attrs (HEADER_MAP ex_collab)) ''http://r/1''
       ex_short_row ex_index ex_item) ''label'' [1, 2] = Inr [Some [''L1''], Some [''L2'']]"
    by code_simp
  moreover have "ex_short_row ''Label'' = Some ''L1''"
    by (simp add: ex_short_row_def)
  moreover have n: "new_values_of ''L1'' = [''L1'']"
    by (simp add: new_values_of_def py_strip_def is_space_def)
  moreover have "set [''L1'', ''L2''] \<noteq> set (new_values_of ''L1'')"
    unfolding n by auto
  ultimately show ?thesis by blast
qed

text \<open>C4, amended. After the diff of a row, for every mapped property of the row (the paths
  of \<^verbatim>\<open>property_attrs\<close> are distinct, as the keys of a dict are). In direct mode the value
  container of the property is the list of the new values of the cell, in the order of the
  row, so its strings are that list and its value set is the new value set. In embedded mode
  the property at the path is the one the item had before the row: its values are not
  assigned. When the index names each embedded object once, the cell matches the memory (each
  new value is the inner value of the embedded object at its position), and an embedded
  object that the index holds under the outer attribute at a position past the new values
  has the inner value it had before the row. Whatever the index, an inner value that no
  mapped property writes is the one the item had before the row: only objects at indexed
  positions of a new list are written. And the diff of a property whose outer attribute is
  not a key of the index leaves the item and both graphs as they are.\<close>

theorem values_after_row:
  assumes "diff_row pa uri row index item0 = Inr ds"
    and "distinct (map snd pa)"
    and "(header, path) \<in> set pa"
  shows "(CHR ''.'' \<notin> set path \<longrightarrow>
            (\<exists>pr cell. row header = Some cell \<and> attrs (item ds) path = Some pr \<and>
               prop_values pr = map PStr (new_values_of cell) \<and>
               map str_of (prop_values pr) = new_values_of cell)) \<and>
         (CHR ''.'' \<in> set path \<longrightarrow> attrs (item ds) path = attrs item0 path) \<and>
         (slots_distinct index \<longrightarrow>
            cell_matches row index (item ds) (header, path) \<and>
            (\<forall>outer inner positions cell j b.
                py_split_max CHR ''.'' 2 path = [outer, inner] \<and> index outer = Some positions \<and>
                row header = Some cell \<and> length (new_values_of cell) \<le> j \<and>
                positions j = Some b \<longrightarrow>
                obj_props (heap (item ds) b) inner = obj_props (heap item0 b) inner)) \<and>
         (\<forall>b name. \<not> written pa row index b name \<longrightarrow>
            obj_props (heap (item ds) b) name = obj_props (heap item0 b) name) \<and>
         (\<forall>outer inner st st'.
             py_split_max CHR ''.'' 2 path = [outer, inner] \<and> index outer = None \<and>
             diff_property uri row index (header, path) st = Inr st' \<longrightarrow> st' = st)"
proof -
  let ?init = "\<lparr>item = item0, delete_graph = [], insert_graph = []\<rparr>"
  from diff_row_loop [OF assms(1)] obtain st where
    run: "for_loop (diff_property uri row index) pa ?init = Inr st"
    and it: "item ds = item st"
    by blast
  have direct: "\<exists>pr cell. row header = Some cell \<and> attrs (item ds) path = Some pr \<and>
      prop_values pr = map PStr (new_values_of cell) \<and>
      map str_of (prop_values pr) = new_values_of cell"
    if "CHR ''.'' \<notin> set path"
  proof -
    from diff_loop_direct [OF run assms(2,3) that] obtain pr cell where
      "row header = Some cell" "attrs (item st) path = Some pr"
      "prop_values pr = map PStr (new_values_of cell)"
      by blast
    moreover from this(3) have "map str_of (prop_values pr) = new_values_of cell"
      by (simp add: comp_def)
    ultimately show ?thesis using it by auto
  qed
  have kept: "attrs (item ds) path = attrs item0 path" if "CHR ''.'' \<in> set path"
    using diff_loop_attrs_embedded [OF run that] it by simp
  have unwritten: "obj_props (heap (item ds) b) name = obj_props (heap item0 b) name"
    if "\<not> written pa row index b name" for b name
    using diff_loop_unwritten [OF run that] it by simp
  have matches: "cell_matches row index (item ds) (header, path)" if "slots_distinct index"
    using diff_loop_reconciles [OF run assms(2) that] assms(3) it by auto
  have past: "obj_props (heap (item ds) b) inner = obj_props (heap item0 b) inner"
    if "slots_distinct index" and "py_split_max CHR ''.'' 2 path = [outer, inner]"
      and "index outer = Some positions" and "row header = Some cell"
      and "length (new_values_of cell) \<le> j" and "positions j = Some b"
    for outer inner positions cell j b
    using past_unwritten [where row = row and index = index and positions = positions,
        OF assms(2,3) that]
    by (rule unwritten)
  have idle: "st' = st"
    if "py_split_max CHR ''.'' 2 path = [outer, inner]" and "index outer = None"
      and "diff_property uri row index (header, path) st = Inr st'"
    for outer inner st st'
  proof -
    from py_split_max_two [OF that(1)] have "CHR ''.'' \<in> set path" by simp
    with that show ?thesis
      by (auto simp: diff_property_def split: option.splits)
  qed
  from direct kept matches past unwritten idle show ?thesis by blast
qed

text \<open>On the row with two titles and one label: the title becomes the list \<open>A\<close>, \<open>B\<close>
  of the cell, the property \<open>part.label\<close> is the one the item had, the label of the first
  part is that of the cell, the second part keeps its label \<open>L2\<close>, and the first part has
  no title as before. With the empty index the diff of the label changes nothing, and the
  first part keeps its label \<open>L1\<close>.\<close>

theorem values_after_row_witness:
  "(\<exists>ds pr. diff_row (property_attrs (HEADER_MAP ex_collab)) ''http://r/1'' ex_one_row ex_index
        ex_item = Inr ds \<and>
     ex_one_row ''Title'' = Some ''A|B'' \<and> ex_one_row ''Label'' = Some ''X1'' \<and>
     attrs (item ds) ''title'' = Some pr \<and> prop_values pr = [PStr ''A'', PStr ''B''] \<and>
     attrs (item ds) ''part.label'' = Some ex_part_label \<and>
     cell_matches ex_one_row ex_index (item ds) (''Label'', ''part.label'') \<and>
     obj_props (heap (item ds) 2) ''label'' = Some [PTerm (RDFLiteral ''L2'')] \<and>
     obj_props (heap (item ds) 1) ''title'' = None) \<and>
   (\<exists>ds. diff_row (property_attrs (HEADER_MAP ex_collab)) ''http://r/1'' ex_one_row Map.empty
        ex_item = Inr ds \<and>
     diff_property ''http://r/1'' ex_one_row Map.empty (''Label'', ''part.label'') ex_state
        = Inr ex_state \<and>
     obj_props (heap (item ds) 1) ''label'' = Some [PTerm (RDFLiteral ''L1'')])"
proof -
  let ?pa = "property_attrs (HEADER_MAP ex_collab)"
  have pa: "?pa = [(''Title'', ''title''), (''Label'', ''part.label'')]"
    by (simp add: property_attrs_def ex_collab_def)
  have "graphs_of (diff_row ?pa ''http://r/1'' ex_one_row ex_index ex_item) =
      Inr ([(''http://r/1/part1'', ''rdfs:label'', RDFLiteral ''L1'')],
           [(''http://r/1'', ''dcterms:title'', RDFLiteral ''B''),
            (''http://r/1/part1'', ''rdfs:label'', RDFLiteral ''X1'')])"
    by code_simp
  from graphs_of_Inr [OF this] obtain ds where
    r: "diff_row ?pa ''http://r/1'' ex_one_row ex_index ex_item = Inr ds"
    by blast
  have d: "distinct (map snd ?pa)" by (simp add: pa)
  have t: "(''Title'', ''title'') \<in> set ?pa" and l: "(''Label'', ''part.label'') \<in> set ?pa"
    by (simp_all add: pa)
  have c: "ex_one_row ''Title'' = Some ''A|B''" and c': "ex_one_row ''Label'' = Some ''X1''"
    by (simp_all add: ex_one_row_def)
  have n: "new_values_of ''A|B'' = [''A'', ''B'']" and n': "new_values_of ''X1'' = [''X1'']"
    by (simp_all add: new_values_of_def py_strip_def is_space_def)
  have s: "py_split_max CHR ''.'' 2 ''part.label'' = [''part'', ''label'']"
    by (simp add: numeral_2_eq_2)
  have x: "ex_index ''part'' = Some ex_positions" by (simp add: ex_index_def)
  have p: "ex_positions 1 = Some 2" by (simp add: ex_positions_def)
  have u: "\<not> written ?pa ex_one_row ex_index 1 ''title''"
    by (simp add: pa written_def numeral_2_eq_2)
  from values_after_row [OF r d t] c n obtain pr where
    "attrs (item ds) ''title'' = Some pr" "prop_values pr = [PStr ''A'', PStr ''B'']"
    by auto
  moreover from values_after_row [OF r d l]
  have "attrs (item ds) ''part.label'' = attrs ex_item ''part.label''" by simp
  then have "attrs (item ds) ''part.label'' = Some ex_part_label" by (simp add: ex_item_def)
  moreover from values_after_row [OF r d l] ex_slots_distinct
  have "cell_matches ex_one_row ex_index (item ds) (''Label'', ''part.label'')"
    by blast
  moreover have le: "length (new_values_of ''X1'') \<le> 1" by (simp add: n')
  from values_after_row [OF r d l] ex_slots_distinct s x c' le p
  have "obj_props (heap (item ds) 2) ''label'' = obj_props (heap ex_item 2) ''label''"
    by blast
  then have "obj_props (heap (item ds) 2) ''label'' = Some [PTerm (RDFLiteral ''L2'')]"
    by (simp add: ex_item_def ex_heap_def)
  moreover from values_after_row [OF r d l] u
  have "obj_props (heap (item ds) 1) ''title'' = obj_props (heap ex_item 1) ''title''"
    by blast
  then have "obj_props (heap (item ds) 1) ''title'' = None"
    by (simp add: ex_item_def ex_heap_def)
  ultimately have first: "\<exists>ds pr.
      diff_row ?pa ''http://r/1'' ex_one_row ex_index ex_item = Inr ds \<and>
      ex_one_row ''Title'' = Some ''A|B'' \<and> ex_one_row ''Label'' = Some ''X1'' \<and>
      attrs (item ds) ''title'' = Some pr \<and> prop_values pr = [PStr ''A'', PStr ''B''] \<and>
      attrs (item ds) ''part.label'' = Some ex_part_label \<and>
      cell_matches ex_one_row ex_index (item ds) (''Label'', ''part.label'') \<and>
      obj_props (heap (item ds) 2) ''label'' = Some [PTerm (RDFLiteral ''L2'')] \<and>
      obj_props (heap (item ds) 1) ''title'' = None"
    using r c c' by blast
  have "graphs_of (diff_row ?pa ''http://r/1'' ex_one_row Map.empty ex_item) =
      Inr ([], [(''http://r/1'', ''dcterms:title'', RDFLiteral ''B'')])"
    by code_simp
  from graphs_of_Inr [OF this] obtain ds0 where
    r0: "diff_row ?pa ''http://r/1'' ex_one_row Map.empty ex_item = Inr ds0"
    by blast
  have "graphs_of (diff_property ''http://r/1'' ex_one_row Map.empty (''Label'', ''part.label'')
      ex_state) = Inr ([], [])"
    by code_simp
  from graphs_of_Inr [OF this] obtain st' where
    q: "diff_property ''http://r/1'' ex_one_row Map.empty (''Label'', ''part.label'') ex_state
          = Inr st'"
    by blast
  have k: "(Map.empty :: index) ''part'' = None" by simp
  from values_after_row [OF r0 d l] s k q have "st' = ex_state" by blast
  with q have idle: "diff_property ''http://r/1'' ex_one_row Map.empty
      (''Label'', ''part.label'') ex_state = Inr ex_state"
    by simp
  have u0: "\<not> written ?pa ex_one_row Map.empty 1 ''label''"
    by (simp add: pa written_def numeral_2_eq_2)
  from values_after_row [OF r0 d l] u0
  have "obj_props (heap (item ds0) 1) ''label'' = obj_props (heap ex_item 1) ''label''"
    by blast
  then have "obj_props (heap (item ds0) 1) ''label'' = Some [PTerm (RDFLiteral ''L1'')]"
    by (simp add: ex_item_def ex_heap_def)
  with r0 idle have "\<exists>ds. diff_row ?pa ''http://r/1'' ex_one_row Map.empty ex_item = Inr ds \<and>
      diff_property ''http://r/1'' ex_one_row Map.empty (''Label'', ''part.label'') ex_state
        = Inr ex_state \<and>
      obj_props (heap (item ds) 1) ''label'' = Some [PTerm (RDFLiteral ''L1'')]"
    by blast
  with first show ?thesis by blast
qed

subsection \<open>A second diff of the same row\<close>

lemma assign_append:
  "assign positions (xs @ ys) c = assign positions ys (assign positions xs c)"
  by (induction xs arbitrary: c) auto

lemma assign_unvisited:
  "\<forall>iv \<in> set xs. positions (fst iv) \<noteq> Some a \<Longrightarrow> assign positions xs c a = c a"
  by (induction xs arbitrary: c) (auto split: option.splits)

lemma assign_visited:
  "\<exists>iv \<in> set xs. positions (fst iv) = Some a \<Longrightarrow>
     assign positions xs c a = assign positions xs c' a"
proof (induction xs arbitrary: c c')
  case Nil
  then show ?case by simp
next
  case (Cons iv xs)
  let ?u = "\<lambda>c. case positions (fst iv) of None \<Rightarrow> c | Some b \<Rightarrow> c(b \<mapsto> snd iv)"
  show ?case
  proof (cases "\<exists>iv \<in> set xs. positions (fst iv) = Some a")
    case True
    from Cons.IH [OF True, of "?u c" "?u c'"] show ?thesis by simp
  next
    case False
    with Cons.prems have p: "positions (fst iv) = Some a" by auto
    from False have "\<forall>iv \<in> set xs. positions (fst iv) \<noteq> Some a" by blast
    then have "assign positions xs (?u c) a = ?u c a" and "assign positions xs (?u c') a = ?u c' a"
      by (rule assign_unvisited)+
    with p show ?thesis by simp
  qed
qed

lemma assign_not_None: "c a \<noteq> None \<Longrightarrow> assign positions xs c a \<noteq> None"
  by (induction xs arbitrary: c) (auto split: option.splits)

lemma assign_visited_not_None:
  "\<exists>iv \<in> set xs. positions (fst iv) = Some a \<Longrightarrow> assign positions xs c a \<noteq> None"
proof (induction xs arbitrary: c)
  case Nil
  then show ?case by simp
next
  case (Cons iv xs)
  let ?u = "case positions (fst iv) of None \<Rightarrow> c | Some b \<Rightarrow> c(b \<mapsto> snd iv)"
  show ?case
  proof (cases "\<exists>iv \<in> set xs. positions (fst iv) = Some a")
    case True
    from Cons.IH [OF True, of ?u] show ?thesis by simp
  next
    case False
    with Cons.prems have p: "positions (fst iv) = Some a" by auto
    then have "?u a \<noteq> None" by simp
    then have "assign positions xs ?u a \<noteq> None" by (rule assign_not_None)
    then show ?thesis by simp
  qed
qed

lemma assign_fixpoint:
  assumes "\<And>a. \<exists>iv \<in> set xs. positions (fst iv) = Some a \<Longrightarrow>
             start a = assign positions xs c0 a"
  shows "assign positions xs start = start"
proof
  fix a
  show "assign positions xs start a = start a"
  proof (cases "\<exists>iv \<in> set xs. positions (fst iv) = Some a")
    case True
    from assign_visited [OF True, of start c0] assms [OF True] show ?thesis by simp
  next
    case False
    then have "\<forall>iv \<in> set xs. positions (fst iv) \<noteq> Some a" by blast
    then show ?thesis by (rule assign_unvisited)
  qed
qed

lemma walk_invD:
  assumes "walk_inv g start cur d i d' i'"
  shows "\<exists>X Y T. set d' = set d \<union> X \<and> set i' = set i \<union> Y \<and>
        X \<union> (\<lambda>a. g a (cur a)) ` T = Y \<union> (\<lambda>a. g a (start a)) ` T \<and>
        (\<lambda>a. g a (start a)) ` T \<subseteq> X \<and> (\<lambda>a. g a (cur a)) ` T \<subseteq> Y \<and>
        (\<forall>a. a \<notin> T \<longrightarrow> cur a = start a)"
  using assms by (simp only: walk_inv_def)

lemma walk_init: "walk_inv g start start d i d i"
  unfolding walk_inv_def
  by (rule exI [of _ "{}"], rule exI [of _ "{}"], rule exI [of _ "{}"]) simp

lemma walk_step:
  assumes "walk_inv g start cur d i d' i'"
  shows "walk_inv g start (cur(a := w)) d i (graph_add (g a (cur a)) d') (graph_add (g a w) i')"
proof -
  from walk_invD [OF assms] obtain X Y T where
    h: "set d' = set d \<union> X \<and> set i' = set i \<union> Y \<and>
        X \<union> (\<lambda>b. g b (cur b)) ` T = Y \<union> (\<lambda>b. g b (start b)) ` T \<and>
        (\<lambda>b. g b (start b)) ` T \<subseteq> X \<and> (\<lambda>b. g b (cur b)) ` T \<subseteq> Y \<and>
        (\<forall>b. b \<notin> T \<longrightarrow> cur b = start b)"
    by (elim exE)
  from h have d: "set d' = set d \<union> X" by (elim conjE)
  from h have i: "set i' = set i \<union> Y" by (elim conjE)
  from h have eq: "X \<union> (\<lambda>b. g b (cur b)) ` T = Y \<union> (\<lambda>b. g b (start b)) ` T"
    by (elim conjE)
  from h have sx: "(\<lambda>b. g b (start b)) ` T \<subseteq> X" by (elim conjE)
  from h have cy: "(\<lambda>b. g b (cur b)) ` T \<subseteq> Y" by (elim conjE)
  from h have un: "cur b = start b" if "b \<notin> T" for b
    using that by blast
  define cur' where "cur' = cur(a := w)"
  define GcT where "GcT = (\<lambda>b. g b (cur b)) ` T"
  define GsT where "GsT = (\<lambda>b. g b (start b)) ` T"
  define Gc where "Gc = (\<lambda>b. g b (cur b)) ` (T - {a})"
  define GnT where "GnT = (\<lambda>b. g b (cur' b)) ` insert a T"
  define GsT' where "GsT' = (\<lambda>b. g b (start b)) ` insert a T"
  define told where "told = g a (cur a)"
  define tnew where "tnew = g a w"
  note eq = eq [folded GcT_def GsT_def]
  note sx = sx [folded GsT_def]
  note cy = cy [folded GcT_def]
  have e: "(\<lambda>b. g b (cur' b)) ` (T - {a}) = Gc"
    unfolding Gc_def by (rule image_cong) (simp_all add: cur'_def)
  have "GnT = (\<lambda>b. g b (cur' b)) ` insert a (T - {a})"
    unfolding GnT_def by (simp only: insert_Diff_single)
  also have "\<dots> = insert (g a (cur' a)) ((\<lambda>b. g b (cur' b)) ` (T - {a}))"
    by (simp only: image_insert)
  also have "\<dots> = insert tnew Gc"
    unfolding e tnew_def by (simp add: cur'_def)
  finally have c1: "GnT = insert tnew Gc" .
  have s1: "GsT' = insert (g a (start a)) GsT"
    unfolding GsT'_def GsT_def by simp
  have c2: "GcT = insert told Gc" if "a \<in> T"
  proof -
    have "GcT = (\<lambda>b. g b (cur b)) ` insert a (T - {a})"
      unfolding GcT_def by (simp only: insert_Diff [OF that])
    also have "\<dots> = insert told Gc"
      unfolding Gc_def told_def by (simp only: image_insert)
    finally show ?thesis .
  qed
  have s2: "g a (start a) \<in> GsT" if "a \<in> T"
    using that unfolding GsT_def by blast
  have c3: "Gc = GcT" if "a \<notin> T"
    unfolding Gc_def GcT_def by (simp only: Diff_insert0 [OF that] Diff_empty)
  have s3: "g a (start a) = told" if "a \<notin> T"
    using un [OF that] unfolding told_def by simp
  have d': "set (graph_add told d') = set d \<union> insert told X"
    using d by (simp add: set_graph_add)
  have i': "set (graph_add tnew i') = set i \<union> insert tnew Y"
    using i by (simp add: set_graph_add)
  have sx': "GsT' \<subseteq> insert told X"
  proof (cases "a \<in> T")
    case True
    from s2 [OF True] s1 sx show ?thesis by blast
  next
    case False
    from s3 [OF False] s1 sx show ?thesis by blast
  qed
  have "Gc \<subseteq> GcT" unfolding Gc_def GcT_def by blast
  with cy c1 have cy': "GnT \<subseteq> insert tnew Y" by blast
  have un': "cur' b = start b" if "b \<notin> insert a T" for b
    using that un [of b] by (simp add: cur'_def)
  have eq': "insert told X \<union> GnT = insert tnew Y \<union> GsT'"
  proof (cases "a \<in> T")
    case True
    have "insert told X \<union> GnT = insert tnew (X \<union> GcT)"
      unfolding c1 c2 [OF True] by blast
    also have "\<dots> = insert tnew (Y \<union> GsT)"
      unfolding eq ..
    also have "\<dots> = insert tnew Y \<union> GsT'"
      unfolding s1 using s2 [OF True] by blast
    finally show ?thesis .
  next
    case False
    have "insert told X \<union> GnT = insert told (insert tnew (X \<union> GcT))"
      unfolding c1 c3 [OF False] by blast
    also have "\<dots> = insert told (insert tnew (Y \<union> GsT))"
      unfolding eq ..
    also have "\<dots> = insert tnew Y \<union> GsT'"
      unfolding s1 s3 [OF False] by blast
    finally show ?thesis .
  qed
  have "\<exists>X Y T. set (graph_add told d') = set d \<union> X \<and> set (graph_add tnew i') = set i \<union> Y \<and>
        X \<union> (\<lambda>b. g b (cur' b)) ` T = Y \<union> (\<lambda>b. g b (start b)) ` T \<and>
        (\<lambda>b. g b (start b)) ` T \<subseteq> X \<and> (\<lambda>b. g b (cur' b)) ` T \<subseteq> Y \<and>
        (\<forall>b. b \<notin> T \<longrightarrow> cur' b = start b)"
  proof (intro exI conjI allI impI)
    show "set (graph_add told d') = set d \<union> insert told X" by (rule d')
    show "set (graph_add tnew i') = set i \<union> insert tnew Y" by (rule i')
    show "insert told X \<union> (\<lambda>b. g b (cur' b)) ` insert a T =
        insert tnew Y \<union> (\<lambda>b. g b (start b)) ` insert a T"
      using eq' unfolding GnT_def GsT'_def .
    show "(\<lambda>b. g b (start b)) ` insert a T \<subseteq> insert told X"
      using sx' unfolding GsT'_def .
    show "(\<lambda>b. g b (cur' b)) ` insert a T \<subseteq> insert tnew Y"
      using cy' unfolding GnT_def .
    show "cur' b = start b" if "b \<notin> insert a T" for b
      using that by (rule un')
  qed
  then show ?thesis
    unfolding walk_inv_def cur'_def told_def tnew_def .
qed

lemma walk_final:
  assumes "walk_inv g start start d i d' i'"
  shows "\<exists>E. set d' = set d \<union> E \<and> set i' = set i \<union> E"
proof -
  from walk_invD [OF assms] obtain X Y T where
    h: "set d' = set d \<union> X \<and> set i' = set i \<union> Y \<and>
        X \<union> (\<lambda>a. g a (start a)) ` T = Y \<union> (\<lambda>a. g a (start a)) ` T \<and>
        (\<lambda>a. g a (start a)) ` T \<subseteq> X \<and> (\<lambda>a. g a (start a)) ` T \<subseteq> Y \<and>
        (\<forall>a. a \<notin> T \<longrightarrow> start a = start a)"
    by (elim exE)
  from h have d: "set d' = set d \<union> X" by (elim conjE)
  from h have i: "set i' = set i \<union> Y" by (elim conjE)
  define G where "G = (\<lambda>b. g b (start b)) ` T"
  from h have eq: "X \<union> G = Y \<union> G" unfolding G_def by (elim conjE)
  from h have sx: "G \<subseteq> X" unfolding G_def by (elim conjE)
  from h have cy: "G \<subseteq> Y" unfolding G_def by (elim conjE)
  from sx have "X = X \<union> G" by blast
  also note eq
  also from cy have "Y \<union> G = Y" by blast
  finally have "X = Y" .
  with i have "set i' = set i \<union> X" by blast
  with d show ?thesis by blast
qed

lemma cellstr_Some:
  "cellstr it inner a = Some old \<Longrightarrow>
     \<exists>w ws. obj_props (heap it a) inner = Some (w # ws) \<and> str_of w = old"
  by (auto simp: cellstr_def split: option.splits list.splits)

lemma embedded_visit_runs:
  assumes "positions i = Some a" and "cellstr (item st) inner a = Some old"
  shows "\<exists>st'. embedded_visit positions inner pr (i, v) st = Inr st'"
proof -
  from cellstr_Some [OF assms(2)] obtain w ws where
    "obj_props (heap (item st) a) inner = Some (w # ws)"
    by blast
  with assms(1) show ?thesis
    by (simp add: embedded_visit_def Let_def)
qed

lemma embedded_visit_effect:
  assumes "embedded_visit positions inner pr (i, v) st = Inr st'"
  shows "\<exists>a old. positions i = Some a \<and> cellstr (item st) inner a = Some old \<and>
           cellstr (item st') inner = (cellstr (item st) inner)(a \<mapsto> v) \<and>
           (\<forall>b. obj_uri (heap (item st') b) = obj_uri (heap (item st) b)) \<and>
           (if v = old then st' = st
            else delete_graph st' =
                   graph_add (obj_uri (heap (item st) a), prop_uri pr, get_term pr old)
                     (delete_graph st) \<and>
                 insert_graph st' =
                   graph_add (obj_uri (heap (item st) a), prop_uri pr, get_term pr v)
                     (insert_graph st))"
proof -
  from assms obtain a where a: "positions i = Some a"
    by (auto simp: embedded_visit_def split: option.splits)
  from assms a obtain w ws where w: "obj_props (heap (item st) a) inner = Some (w # ws)"
    by (auto simp: embedded_visit_def Let_def split: option.splits list.splits)
  define old where "old = str_of w"
  from w have c: "cellstr (item st) inner a = Some old"
    by (simp add: cellstr_def old_def)
  show ?thesis
  proof (cases "v = old")
    case True
    with assms a w have e: "st' = st"
      by (simp add: embedded_visit_def Let_def old_def)
    from c True have "(cellstr (item st) inner)(a \<mapsto> v) = cellstr (item st) inner"
      by (simp add: fun_upd_idem)
    with e a c True show ?thesis by auto
  next
    case False
    with assms a w have e: "st' =
        st\<lparr>item := (item st)\<lparr>heap :=
               (heap (item st))(a := setattr (heap (item st) a) inner v)\<rparr>,
           delete_graph :=
             graph_add (obj_uri (heap (item st) a), prop_uri pr, get_term pr old)
               (delete_graph st),
           insert_graph :=
             graph_add (obj_uri (heap (item st) a), prop_uri pr, get_term pr v)
               (insert_graph st)\<rparr>"
      by (simp add: embedded_visit_def Let_def old_def)
    have "cellstr (item st') inner b = ((cellstr (item st) inner)(a \<mapsto> v)) b" for b
      unfolding e by (simp add: cellstr_def setattr_def)
    then have cs: "cellstr (item st') inner = (cellstr (item st) inner)(a \<mapsto> v)"
      by (rule ext)
    have u: "obj_uri (heap (item st') b) = obj_uri (heap (item st) b)" for b
      unfolding e by (simp add: setattr_def)
    have g: "delete_graph st' =
        graph_add (obj_uri (heap (item st) a), prop_uri pr, get_term pr old) (delete_graph st)"
      "insert_graph st' =
        graph_add (obj_uri (heap (item st) a), prop_uri pr, get_term pr v) (insert_graph st)"
      unfolding e by simp_all
    from a c cs u g False show ?thesis by auto
  qed
qed

lemma first_walk:
  assumes "for_loop (embedded_visit positions inner pr) xs st0 = Inr st1"
  shows "(\<forall>iv \<in> set xs. \<exists>a. positions (fst iv) = Some a) \<and>
         cellstr (item st1) inner = assign positions xs (cellstr (item st0) inner) \<and>
         (\<forall>b. obj_uri (heap (item st1) b) = obj_uri (heap (item st0) b))"
  using assms
proof (induction xs arbitrary: st0)
  case Nil
  then show ?case by simp
next
  case (Cons iv xs)
  obtain i v where iv: "iv = (i, v)" by (cases iv)
  from Cons.prems iv obtain st where
    v1: "embedded_visit positions inner pr (i, v) st0 = Inr st"
    and l: "for_loop (embedded_visit positions inner pr) xs st = Inr st1"
    by (auto split: sum.splits)
  from embedded_visit_effect [OF v1] obtain a where
    a: "positions i = Some a"
    and c: "cellstr (item st) inner = (cellstr (item st0) inner)(a \<mapsto> v)"
    and u: "\<forall>b. obj_uri (heap (item st) b) = obj_uri (heap (item st0) b)"
    by blast
  from Cons.IH [OF l] have
    p: "\<forall>iv \<in> set xs. \<exists>a. positions (fst iv) = Some a"
    and c1: "cellstr (item st1) inner = assign positions xs (cellstr (item st) inner)"
    and u1: "\<forall>b. obj_uri (heap (item st1) b) = obj_uri (heap (item st) b)"
    by blast+
  from p a iv have "\<forall>iv \<in> set (iv # xs). \<exists>a. positions (fst iv) = Some a" by simp
  moreover from c1 c a iv
  have "cellstr (item st1) inner = assign positions (iv # xs) (cellstr (item st0) inner)"
    by simp
  moreover from u u1 have "\<forall>b. obj_uri (heap (item st1) b) = obj_uri (heap (item st0) b)"
    by simp
  ultimately show ?case by blast
qed

lemma second_walk:
  assumes "\<forall>iv \<in> set xs. \<exists>a. positions (fst iv) = Some a \<and> cellstr (item st) inner a \<noteq> None"
  shows "\<exists>st'. for_loop (embedded_visit positions inner pr) xs st = Inr st' \<and>
           cellstr (item st') inner = assign positions xs (cellstr (item st) inner) \<and>
           (\<forall>b. obj_uri (heap (item st') b) = obj_uri (heap (item st) b)) \<and>
           walk_inv (\<lambda>a s. (obj_uri (heap (item st) a), prop_uri pr, get_term pr (the s)))
             (cellstr (item st) inner) (cellstr (item st') inner)
             (delete_graph st) (insert_graph st) (delete_graph st') (insert_graph st')"
  using assms
proof (induction xs rule: rev_induct)
  case Nil
  show ?case by (simp add: walk_init)
next
  case (snoc iv xs)
  obtain i v where iv: "iv = (i, v)" by (cases iv)
  define g where "g = (\<lambda>a s. (obj_uri (heap (item st) a), prop_uri pr, get_term pr (the s)))"
  define start where "start = cellstr (item st) inner"
  from snoc.prems have "\<forall>iv \<in> set xs. \<exists>a. positions (fst iv) = Some a \<and>
      cellstr (item st) inner a \<noteq> None"
    by simp
  from snoc.IH [OF this] obtain stj where
    l: "for_loop (embedded_visit positions inner pr) xs st = Inr stj"
    and c: "cellstr (item stj) inner = assign positions xs start"
    and u: "\<forall>b. obj_uri (heap (item stj) b) = obj_uri (heap (item st) b)"
    and w: "walk_inv g start (cellstr (item stj) inner)
             (delete_graph st) (insert_graph st) (delete_graph stj) (insert_graph stj)"
    unfolding g_def start_def by blast
  from snoc.prems iv obtain a where a: "positions i = Some a" and "start a \<noteq> None"
    unfolding start_def by auto
  then have "assign positions xs start a \<noteq> None" by (simp add: assign_not_None)
  with c obtain old where old: "cellstr (item stj) inner a = Some old" by auto
  from embedded_visit_runs [where positions = positions and i = i, OF a old]
  obtain st' where v1: "embedded_visit positions inner pr (i, v) stj = Inr st'"
    by blast
  from l v1 iv have run: "for_loop (embedded_visit positions inner pr) (xs @ [iv]) st = Inr st'"
    by (simp add: for_loop_snoc)
  from embedded_visit_effect [OF v1] a old have
    c': "cellstr (item st') inner = (cellstr (item stj) inner)(a \<mapsto> v)"
    and u': "\<forall>b. obj_uri (heap (item st') b) = obj_uri (heap (item stj) b)"
    and e: "if v = old then st' = stj
            else delete_graph st' =
                   graph_add (obj_uri (heap (item stj) a), prop_uri pr, get_term pr old)
                     (delete_graph stj) \<and>
                 insert_graph st' =
                   graph_add (obj_uri (heap (item stj) a), prop_uri pr, get_term pr v)
                     (insert_graph stj)"
    by auto
  from c c' a iv have cs: "cellstr (item st') inner = assign positions (xs @ [iv]) start"
    by (simp add: assign_append)
  from u u' have us: "\<forall>b. obj_uri (heap (item st') b) = obj_uri (heap (item st) b)"
    by simp
  have ws: "walk_inv g start (cellstr (item st') inner)
             (delete_graph st) (insert_graph st) (delete_graph st') (insert_graph st')"
  proof (cases "v = old")
    case True
    with e have "st' = stj" by simp
    with w show ?thesis by simp
  next
    case False
    with e u old have d: "delete_graph st' = graph_add (g a (cellstr (item stj) inner a)) (delete_graph stj)"
      and i: "insert_graph st' = graph_add (g a (Some v)) (insert_graph stj)"
      by (simp_all add: g_def)
    from walk_step [OF w, of a "Some v"] show ?thesis
      unfolding d i c' .
  qed
  from run cs us ws show ?case
    unfolding g_def start_def by blast
qed

lemma agree_attrs: "agree index path it it' \<Longrightarrow> attrs it' path = attrs it path"
  unfolding agree_def by blast

lemma agree_cells:
  assumes "agree index path it it'" and "py_split_max CHR ''.'' 2 path = [outer, inner]"
    and "index outer = Some positions" and "positions i = Some a"
  shows "obj_uri (heap it' a) = obj_uri (heap it a)"
    and "cellstr it' inner a = cellstr it inner a"
proof -
  from assms(1) have "\<forall>outer inner positions i a.
      py_split_max CHR ''.'' 2 path = [outer, inner] \<and> index outer = Some positions \<and>
      positions i = Some a \<longrightarrow>
      obj_uri (heap it' a) = obj_uri (heap it a) \<and> cellstr it' inner a = cellstr it inner a"
    unfolding agree_def by blast
  with assms(2,3,4) show "obj_uri (heap it' a) = obj_uri (heap it a)"
    and "cellstr it' inner a = cellstr it inner a"
    by blast+
qed

lemma agreeI:
  assumes "attrs it' path = attrs it path"
    and "\<And>outer inner positions i a.
       py_split_max CHR ''.'' 2 path = [outer, inner] \<Longrightarrow> index outer = Some positions \<Longrightarrow>
       positions i = Some a \<Longrightarrow>
       obj_uri (heap it' a) = obj_uri (heap it a) \<and> cellstr it' inner a = cellstr it inner a"
  shows "agree index path it it'"
  unfolding agree_def using assms by blast

lemma agree_refl: "agree index path it it"
  by (rule agreeI) simp_all

lemma agree_trans:
  assumes "agree index path it it'" and "agree index path it' it''"
  shows "agree index path it it''"
proof (rule agreeI)
  from agree_attrs [OF assms(1)] agree_attrs [OF assms(2)]
  show "attrs it'' path = attrs it path" by simp
next
  fix outer inner positions i a
  assume s: "py_split_max CHR ''.'' 2 path = [outer, inner]"
    and x: "index outer = Some positions" and p: "positions i = Some a"
  from agree_cells [OF assms(1) s x p] agree_cells [OF assms(2) s x p]
  show "obj_uri (heap it'' a) = obj_uri (heap it a) \<and> cellstr it'' inner a = cellstr it inner a"
    by simp
qed

lemma diff_property_obj_uri:
  assumes "diff_property uri row index (header, path) st = Inr st'"
  shows "obj_uri (heap (item st') b) = obj_uri (heap (item st) b)"
proof -
  from assms obtain pr cell where
    p: "attrs (item st) path = Some pr" and c: "row header = Some cell"
    by (auto simp: diff_property_def split: option.splits)
  show ?thesis
  proof (cases "CHR ''.'' \<in> set path")
    case False
    from diff_property_frame(2) [OF assms False] show ?thesis by simp
  next
    case True
    with assms p c obtain outer inner where
      s: "py_split_max CHR ''.'' 2 path = [outer, inner]"
      by (auto simp: diff_property_def split: list.splits)
    show ?thesis
    proof (cases "index outer")
      case None
      with assms p c True s have "st' = st" by (simp add: diff_property_def)
      then show ?thesis by simp
    next
      case (Some positions)
      with assms p c True s
      have "for_loop (embedded_visit positions inner pr)
          (List.enumerate 0 (new_values_of cell)) st = Inr st'"
        by (simp add: diff_property_def)
      from first_walk [OF this] show ?thesis by blast
    qed
  qed
qed

lemma cellstr_cong:
  "obj_props (heap it' a) inner = obj_props (heap it a) inner \<Longrightarrow>
     cellstr it' inner a = cellstr it inner a"
  by (simp add: cellstr_def)

lemma step_agree:
  assumes step: "diff_property uri row index (header', path') st = Inr st'"
    and ne: "path' \<noteq> path" and od: "outers_disjoint index"
  shows "agree index path (item st) (item st')"
proof (rule agreeI)
  from diff_property_frame(1) [OF step] ne
  show "attrs (item st') path = attrs (item st) path" by simp
next
  fix outer inner positions i a
  assume s: "py_split_max CHR ''.'' 2 path = [outer, inner]"
    and ix: "index outer = Some positions" and pi: "positions i = Some a"
  have "obj_props (heap (item st') a) inner = obj_props (heap (item st) a) inner"
  proof (cases "CHR ''.'' \<in> set path'")
    case False
    with diff_property_frame(2) [OF step] show ?thesis by simp
  next
    case True
    from diff_property_frame(3) [OF step True] obtain outer' inner' where
      s': "py_split_max CHR ''.'' 2 path' = [outer', inner']"
      and f: "\<And>b name. name \<noteq> inner' \<or>
                  (\<forall>positions' i. index outer' = Some positions' \<longrightarrow> positions' i \<noteq> Some b) \<Longrightarrow>
                obj_props (heap (item st') b) name = obj_props (heap (item st) b) name"
      by blast
    show ?thesis
    proof (cases "inner = inner'")
      case False
      then show ?thesis by (simp add: f)
    next
      case True
      from py_split_max_two [OF s] py_split_max_two [OF s'] ne True
      have "outer \<noteq> outer'" by auto
      with od ix pi
      have "\<forall>positions' j. index outer' = Some positions' \<longrightarrow> positions' j \<noteq> Some a"
        unfolding outers_disjoint_def by blast
      then show ?thesis by (simp add: f)
    qed
  qed
  then have "cellstr (item st') inner a = cellstr (item st) inner a"
    by (rule cellstr_cong)
  with diff_property_obj_uri [OF step, of a]
  show "obj_uri (heap (item st') a) = obj_uri (heap (item st) a) \<and>
      cellstr (item st') inner a = cellstr (item st) inner a"
    by simp
qed

lemma quietI:
  assumes "\<And>st :: diff_state. agree index path it (item st) \<Longrightarrow>
     \<exists>st' E. diff_property uri row index (header, path) st = Inr st' \<and>
        set (delete_graph st') = set (delete_graph st) \<union> E \<and>
        set (insert_graph st') = set (insert_graph st) \<union> E"
  shows "quiet uri row index (header, path) it"
  unfolding quiet_def using assms by simp

lemma quietD:
  assumes "quiet uri row index ha it" and "agree index (snd ha) it (item (st :: diff_state))"
  shows "\<exists>st' E. diff_property uri row index ha st = Inr st' \<and>
        set (delete_graph st') = set (delete_graph st) \<union> E \<and>
        set (insert_graph st') = set (insert_graph st) \<union> E"
  using assms unfolding quiet_def by blast

lemma quiet_agree:
  assumes "quiet uri row index ha it" and "agree index (snd ha) it it'"
  shows "quiet uri row index ha it'"
proof -
  obtain header path where ha: "ha = (header, path)" by (cases ha)
  show ?thesis
    unfolding ha
  proof (rule quietI)
    fix st :: diff_state
    assume "agree index path it' (item st)"
    with assms(2) ha have "agree index (snd ha) it (item st)"
      by (auto intro: agree_trans)
    from quietD [OF assms(1) this] ha
    show "\<exists>st' E. diff_property uri row index (header, path) st = Inr st' \<and>
        set (delete_graph st') = set (delete_graph st) \<union> E \<and>
        set (insert_graph st') = set (insert_graph st) \<union> E"
      by simp
  qed
qed

lemma step_quiet:
  assumes "diff_property uri row index (header, path) st0 = Inr st1"
  shows "quiet uri row index (header, path) (item st1)"
proof (rule quietI)
  fix st :: diff_state
  assume ag: "agree index path (item st1) (item st)"
  from assms obtain pr cell where
    p: "attrs (item st0) path = Some pr" and c: "row header = Some cell"
    by (auto simp: diff_property_def split: option.splits)
  let ?new = "new_values_of cell"
  show "\<exists>st' E. diff_property uri row index (header, path) st = Inr st' \<and>
      set (delete_graph st') = set (delete_graph st) \<union> E \<and>
      set (insert_graph st') = set (insert_graph st) \<union> E"
  proof (cases "CHR ''.'' \<in> set path")
    case False
    with assms p c have "st1 = diff_direct uri path pr (map str_of (prop_values pr)) ?new st0"
      by (simp add: diff_property_def)
    then have "attrs (item st1) path = Some (pr\<lparr>prop_values := map PStr ?new\<rparr>)"
      by (simp add: diff_direct_def)
    with agree_attrs [OF ag]
    have p': "attrs (item st) path = Some (pr\<lparr>prop_values := map PStr ?new\<rparr>)" by simp
    have d: "py_set_diff ?new ?new = []" by (simp add: py_set_diff_same)
    from False p' c have "diff_property uri row index (header, path) st =
        Inr (diff_direct uri path (pr\<lparr>prop_values := map PStr ?new\<rparr>) ?new ?new st)"
      by (simp add: diff_property_def comp_def)
    moreover have "delete_graph (diff_direct uri path (pr\<lparr>prop_values := map PStr ?new\<rparr>)
        ?new ?new st) = delete_graph st"
      and "insert_graph (diff_direct uri path (pr\<lparr>prop_values := map PStr ?new\<rparr>)
        ?new ?new st) = insert_graph st"
      by (simp_all add: diff_direct_def d)
    ultimately have "diff_property uri row index (header, path) st =
        Inr (diff_direct uri path (pr\<lparr>prop_values := map PStr ?new\<rparr>) ?new ?new st) \<and>
      set (delete_graph (diff_direct uri path (pr\<lparr>prop_values := map PStr ?new\<rparr>) ?new ?new st))
        = set (delete_graph st) \<union> {} \<and>
      set (insert_graph (diff_direct uri path (pr\<lparr>prop_values := map PStr ?new\<rparr>) ?new ?new st))
        = set (insert_graph st) \<union> {}"
      by simp
    then show ?thesis by blast
  next
    case True
    with assms p c obtain outer inner where
      s: "py_split_max CHR ''.'' 2 path = [outer, inner]"
      by (auto simp: diff_property_def split: list.splits)
    from diff_property_frame(3) [OF assms True] have "attrs (item st1) = attrs (item st0)"
      by blast
    with p agree_attrs [OF ag] have p': "attrs (item st) path = Some pr" by simp
    show ?thesis
    proof (cases "index outer")
      case None
      with True p' c s have "diff_property uri row index (header, path) st = Inr st"
        by (simp add: diff_property_def)
      then have "diff_property uri row index (header, path) st = Inr st \<and>
          set (delete_graph st) = set (delete_graph st) \<union> {} \<and>
          set (insert_graph st) = set (insert_graph st) \<union> {}"
        by simp
      then show ?thesis by blast
    next
      case (Some positions)
      let ?xs = "List.enumerate 0 ?new"
      let ?visit = "embedded_visit positions inner pr"
      from assms p c True s Some have l0: "for_loop ?visit ?xs st0 = Inr st1"
        by (simp add: diff_property_def)
      from first_walk [OF l0] have
        pos: "\<forall>iv \<in> set ?xs. \<exists>a. positions (fst iv) = Some a"
        and c1: "cellstr (item st1) inner = assign positions ?xs (cellstr (item st0) inner)"
        by blast+
      have same: "cellstr (item st) inner a = assign positions ?xs (cellstr (item st0) inner) a"
        if "positions i = Some a" for i a
        using agree_cells(2) [OF ag s Some that] c1 by simp
      have "\<forall>iv \<in> set ?xs. \<exists>a. positions (fst iv) = Some a \<and> cellstr (item st) inner a \<noteq> None"
      proof
        fix iv assume m: "iv \<in> set ?xs"
        with pos obtain a where a: "positions (fst iv) = Some a" by blast
        with m have "\<exists>iv \<in> set ?xs. positions (fst iv) = Some a" by blast
        then have "assign positions ?xs (cellstr (item st0) inner) a \<noteq> None"
          by (rule assign_visited_not_None)
        with same [OF a] a
        show "\<exists>a. positions (fst iv) = Some a \<and> cellstr (item st) inner a \<noteq> None"
          by simp
      qed
      from second_walk [OF this, of pr] obtain st' where
        l: "for_loop ?visit ?xs st = Inr st'"
        and c2: "cellstr (item st') inner = assign positions ?xs (cellstr (item st) inner)"
        and w: "walk_inv (\<lambda>a s. (obj_uri (heap (item st) a), prop_uri pr, get_term pr (the s)))
             (cellstr (item st) inner) (cellstr (item st') inner)
             (delete_graph st) (insert_graph st) (delete_graph st') (insert_graph st')"
        by blast
      have "assign positions ?xs (cellstr (item st) inner) = cellstr (item st) inner"
      proof (rule assign_fixpoint)
        fix a assume "\<exists>iv \<in> set ?xs. positions (fst iv) = Some a"
        then obtain iv :: "nat \<times> string" where "positions (fst iv) = Some a" by blast
        then show "cellstr (item st) inner a =
            assign positions ?xs (cellstr (item st0) inner) a"
          by (rule same)
      qed
      with c2 have "cellstr (item st') inner = cellstr (item st) inner" by simp
      with w have "walk_inv (\<lambda>a s. (obj_uri (heap (item st) a), prop_uri pr, get_term pr (the s)))
             (cellstr (item st) inner) (cellstr (item st) inner)
             (delete_graph st) (insert_graph st) (delete_graph st') (insert_graph st')"
        by simp
      from walk_final [OF this] obtain E where
        "set (delete_graph st') = set (delete_graph st) \<union> E"
        "set (insert_graph st') = set (insert_graph st) \<union> E"
        by blast
      moreover from True p' c s Some l
      have "diff_property uri row index (header, path) st = Inr st'"
        by (simp add: diff_property_def)
      ultimately show ?thesis by blast
    qed
  qed
qed

lemma diff_loop_agree:
  assumes "for_loop (diff_property uri row index) pa st = Inr st'"
    and "path \<notin> snd ` set pa" and "outers_disjoint index"
  shows "agree index path (item st) (item st')"
  using assms(1,2)
proof (induction pa arbitrary: st)
  case Nil
  then show ?case by (simp add: agree_refl)
next
  case (Cons ha pa)
  obtain header' path' where ha: "ha = (header', path')" by (cases ha)
  from Cons.prems(1) ha obtain st1 where
    step: "diff_property uri row index (header', path') st = Inr st1"
    and l: "for_loop (diff_property uri row index) pa st1 = Inr st'"
    by (auto split: sum.splits)
  from Cons.prems(2) ha have ne: "path' \<noteq> path" and n: "path \<notin> snd ` set pa" by auto
  from step_agree [OF step ne assms(3)] Cons.IH [OF l n]
  show ?case by (rule agree_trans)
qed

lemma diff_loop_quiet:
  assumes "for_loop (diff_property uri row index) pa st = Inr st'"
    and "distinct (map snd pa)" and "outers_disjoint index"
  shows "\<forall>ha \<in> set pa. quiet uri row index ha (item st')"
  using assms(1,2)
proof (induction pa arbitrary: st)
  case Nil
  then show ?case by simp
next
  case (Cons ha pa)
  obtain header path where ha: "ha = (header, path)" by (cases ha)
  from Cons.prems(1) ha obtain st1 where
    step: "diff_property uri row index (header, path) st = Inr st1"
    and l: "for_loop (diff_property uri row index) pa st1 = Inr st'"
    by (auto split: sum.splits)
  from Cons.prems(2) ha have n: "path \<notin> snd ` set pa" and d: "distinct (map snd pa)"
    by auto
  from step_quiet [OF step] have "quiet uri row index (header, path) (item st1)" .
  moreover from diff_loop_agree [OF l n assms(3)]
  have "agree index (snd (header, path)) (item st1) (item st')" by simp
  ultimately have "quiet uri row index (header, path) (item st')"
    by (rule quiet_agree)
  with Cons.IH [OF l d] ha show ?case by simp
qed

lemma diff_loop_quiet_run:
  assumes "\<forall>ha \<in> set pa. quiet uri row index ha (item st)"
    and "distinct (map snd pa)" and "outers_disjoint index"
  shows "\<exists>st' E. for_loop (diff_property uri row index) pa st = Inr st' \<and>
           set (delete_graph st') = set (delete_graph st) \<union> E \<and>
           set (insert_graph st') = set (insert_graph st) \<union> E"
  using assms(1,2)
proof (induction pa arbitrary: st)
  case Nil
  have "for_loop (diff_property uri row index) [] st = Inr st \<and>
      set (delete_graph st) = set (delete_graph st) \<union> {} \<and>
      set (insert_graph st) = set (insert_graph st) \<union> {}"
    by simp
  then show ?case by blast
next
  case (Cons ha pa)
  obtain header path where ha: "ha = (header, path)" by (cases ha)
  from Cons.prems(1) have q: "quiet uri row index ha (item st)" by simp
  have "agree index (snd ha) (item st) (item st)" by (rule agree_refl)
  from quietD [OF q this] ha obtain st1 E1 where
    step: "diff_property uri row index (header, path) st = Inr st1"
    and d1: "set (delete_graph st1) = set (delete_graph st) \<union> E1"
    and i1: "set (insert_graph st1) = set (insert_graph st) \<union> E1"
    by auto
  have "\<forall>ha' \<in> set pa. quiet uri row index ha' (item st1)"
  proof
    fix ha' assume m: "ha' \<in> set pa"
    with Cons.prems(2) ha have ne: "path \<noteq> snd ha'" by auto
    from step_agree [OF step ne assms(3)]
    have "agree index (snd ha') (item st) (item st1)" .
    moreover from Cons.prems(1) m have "quiet uri row index ha' (item st)" by simp
    ultimately show "quiet uri row index ha' (item st1)"
      by (rule quiet_agree [rotated])
  qed
  moreover from Cons.prems(2) have "distinct (map snd pa)" by simp
  ultimately obtain st' E2 where
    l: "for_loop (diff_property uri row index) pa st1 = Inr st'"
    and d2: "set (delete_graph st') = set (delete_graph st1) \<union> E2"
    and i2: "set (insert_graph st') = set (insert_graph st1) \<union> E2"
    using Cons.IH by blast
  from step l ha have "for_loop (diff_property uri row index) (ha # pa) st = Inr st'"
    by simp
  moreover from d1 d2 have "set (delete_graph st') = set (delete_graph st) \<union> (E1 \<union> E2)"
    by blast
  moreover from i1 i2 have "set (insert_graph st') = set (insert_graph st) \<union> (E1 \<union> E2)"
    by blast
  ultimately show ?case by blast
qed

lemma cancel_same_sets:
  assumes "set d = set i"
  shows "cancel d i = ([], [])"
proof -
  obtain d' i' where c: "cancel d i = (d', i')" by (cases "cancel d i")
  from cancel_sets [OF c] assms have "set d' = {}" and "set i' = {}" by simp_all
  with c show ?thesis by simp
qed

text \<open>The aliased descriptor names the one part twice, under the one attribute.\<close>

lemma ex_alias_outers_disjoint: "outers_disjoint ex_alias_index"
  by (auto simp: outers_disjoint_def ex_alias_index_def split: if_splits)

text \<open>C5, as the claim states it, fails when the index files one embedded object under two
  attributes. The descriptor \<^verbatim>\<open>part[0]=/part1;member[0]=/part1\<close> builds such an index; the
  labels \<open>X\<close> and \<open>Y\<close> of the row are both written to the one part, each time after a
  comparison with what the part holds by then, under two predicates. The first diff returns,
  and the second diff, on the item the first one left, returns with two triples to delete
  and two to insert.\<close>

theorem diff_idempotent_counterexample:
  "build_lookup_index ex_shared_item ''part[0]=/part1;member[0]=/part1'' = Inr ex_shared_index \<and>
   property_attrs ex_shared_map = [(''Label'', ''part.label''), (''Name'', ''member.label'')] \<and>
   graphs_of (diff_row (property_attrs ex_shared_map) ''http://r/1'' ex_shared_row
       ex_shared_index ex_shared_item) =
     Inr ([(''http://r/1/part1'', ''rdfs:label'', RDFLiteral ''L1''),
           (''http://r/1/part1'', ''skos:prefLabel'', RDFLiteral ''X'')],
          [(''http://r/1/part1'', ''rdfs:label'', RDFLiteral ''X''),
           (''http://r/1/part1'', ''skos:prefLabel'', RDFLiteral ''Y'')]) \<and>
   graphs_of (diff_twice (property_attrs ex_shared_map) ''http://r/1'' ex_shared_row
       ex_shared_index ex_shared_item) =
     Inr ([(''http://r/1/part1'', ''rdfs:label'', RDFLiteral ''Y''),
           (''http://r/1/part1'', ''skos:prefLabel'', RDFLiteral ''X'')],
          [(''http://r/1/part1'', ''rdfs:label'', RDFLiteral ''X''),
           (''http://r/1/part1'', ''skos:prefLabel'', RDFLiteral ''Y'')])"
proof -
  have "build_lookup_index ex_shared_item ''part[0]=/part1;member[0]=/part1'' =
      Inr ex_shared_index"
    by (simp add: build_lookup_index_def index_entry_def match_here_def is_word_def is_digit_def
        int_of_digits_def ex_shared_item_def ex_item_def ex_part_def ex_member_def
        prop_getitem_def ex_shared_index_def fun_upd_twist)
  moreover have "property_attrs ex_shared_map =
      [(''Label'', ''part.label''), (''Name'', ''member.label'')]"
    by (simp add: property_attrs_def ex_shared_map_def)
  moreover have "graphs_of (diff_row (property_attrs ex_shared_map) ''http://r/1'' ex_shared_row
       ex_shared_index ex_shared_item) =
     Inr ([(''http://r/1/part1'', ''rdfs:label'', RDFLiteral ''L1''),
           (''http://r/1/part1'', ''skos:prefLabel'', RDFLiteral ''X'')],
          [(''http://r/1/part1'', ''rdfs:label'', RDFLiteral ''X''),
           (''http://r/1/part1'', ''skos:prefLabel'', RDFLiteral ''Y'')])"
    by code_simp
  moreover have "graphs_of (diff_twice (property_attrs ex_shared_map) ''http://r/1''
       ex_shared_row ex_shared_index ex_shared_item) =
     Inr ([(''http://r/1/part1'', ''rdfs:label'', RDFLiteral ''Y''),
           (''http://r/1/part1'', ''skos:prefLabel'', RDFLiteral ''X'')],
          [(''http://r/1/part1'', ''rdfs:label'', RDFLiteral ''X''),
           (''http://r/1/part1'', ''skos:prefLabel'', RDFLiteral ''Y'')])"
    by code_simp
  ultimately show ?thesis by blast
qed

text \<open>C5, amended. When the diff of a row has returned, the diff of the same row on the item
  it left in memory, with the same index, returns with both graphs empty, provided that no
  embedded object is indexed under two attributes. The paths of \<^verbatim>\<open>property_attrs\<close> are
  distinct (the keys of a dict). One attribute may name an object at several positions: the
  second diff then walks the same values again, and the cancellation empties both
  graphs.\<close>

theorem diff_idempotent:
  assumes "diff_row pa uri row index item0 = Inr ds"
    and "distinct (map snd pa)"
    and "outers_disjoint index"
  shows "(\<exists>ds'. diff_row pa uri row index (item ds) = Inr ds' \<and>
            delete_graph ds' = [] \<and> insert_graph ds' = []) \<and>
         graphs_of (diff_twice pa uri row index item0) = Inr ([], [])"
proof -
  from diff_row_loop [OF assms(1)] obtain st where
    run: "for_loop (diff_property uri row index) pa
            \<lparr>item = item0, delete_graph = [], insert_graph = []\<rparr> = Inr st"
    and it: "item ds = item st"
    by blast
  let ?init = "\<lparr>item = item ds, delete_graph = [], insert_graph = []\<rparr>"
  from diff_loop_quiet [OF run assms(2,3)] it
  have "\<forall>ha \<in> set pa. quiet uri row index ha (item ?init)" by simp
  from diff_loop_quiet_run [OF this assms(2,3)] obtain st' E where
    run': "for_loop (diff_property uri row index) pa ?init = Inr st'"
    and d: "set (delete_graph st') = E" and i: "set (insert_graph st') = E"
    by auto
  from d i have "set (delete_graph st') = set (insert_graph st')" by simp
  then have "cancel (delete_graph st') (insert_graph st') = ([], [])"
    by (rule cancel_same_sets)
  with run' have second: "diff_row pa uri row index (item ds) =
      Inr (st'\<lparr>delete_graph := [], insert_graph := []\<rparr>)"
    by (simp add: diff_row_def)
  with assms(1) have "graphs_of (diff_twice pa uri row index item0) = Inr ([], [])"
    by (simp add: diff_twice_def graphs_of_def)
  with second show ?thesis by simp
qed

text \<open>On the aliased descriptor, where both positions of \<open>part\<close> name the first part and
  the cell gives them the labels \<open>X\<close> and \<open>Y\<close>: the first diff replaces \<open>L1\<close> by
  \<open>Y\<close>; the second diff, on the item the first one left, has nothing to delete or insert.\<close>

theorem diff_idempotent_witness:
  "\<exists>ds ds'. diff_row (property_attrs (HEADER_MAP ex_collab)) ''http://r/1'' ex_twice_row
        ex_alias_index ex_item = Inr ds \<and>
     delete_graph ds = [(''http://r/1/part1'', ''rdfs:label'', RDFLiteral ''L1'')] \<and>
     insert_graph ds = [(''http://r/1/part1'', ''rdfs:label'', RDFLiteral ''Y'')] \<and>
     diff_row (property_attrs (HEADER_MAP ex_collab)) ''http://r/1'' ex_twice_row
        ex_alias_index (item ds) = Inr ds' \<and>
     delete_graph ds' = [] \<and> insert_graph ds' = []"
proof -
  let ?pa = "property_attrs (HEADER_MAP ex_collab)"
  have pa: "?pa = [(''Title'', ''title''), (''Label'', ''part.label'')]"
    by (simp add: property_attrs_def ex_collab_def)
  have "graphs_of (diff_row ?pa ''http://r/1'' ex_twice_row ex_alias_index ex_item) =
      Inr ([(''http://r/1/part1'', ''rdfs:label'', RDFLiteral ''L1'')],
           [(''http://r/1/part1'', ''rdfs:label'', RDFLiteral ''Y'')])"
    by code_simp
  from graphs_of_Inr [OF this] obtain ds where
    r: "diff_row ?pa ''http://r/1'' ex_twice_row ex_alias_index ex_item = Inr ds"
    and g: "delete_graph ds = [(''http://r/1/part1'', ''rdfs:label'', RDFLiteral ''L1'')]"
      "insert_graph ds = [(''http://r/1/part1'', ''rdfs:label'', RDFLiteral ''Y'')]"
    by blast
  have d: "distinct (map snd ?pa)" by (simp add: pa)
  from diff_idempotent [OF r d ex_alias_outers_disjoint] r g show ?thesis
    by blast
qed


end
